theory Spec2Isabelle
  imports Main "HOL-Library.Word"
begin

unbundle bit_operations_syntax

section \<open>Failures\<close>

text \<open>
  Modelled from the spec: the macros \<^verbatim>\<open>JLM_ASSERT\<close>, \<^verbatim>\<open>JLM_DEBUG_ASSERT\<close> and
  \<^verbatim>\<open>JLM_UNREACHABLE\<close> are defined in \<^verbatim>\<open>jlm/util/common.hpp\<close>, which is not among the
  sources. Following sections 4.8 and 7 of the specification, a violated assertion and a
  reached \<^verbatim>\<open>JLM_UNREACHABLE\<close> are failures that return no value; the constructor of
  \<^verbatim>\<open>flattened_binary_op\<close> reports the kind \<^verbatim>\<open>UnreducibleOperator\<close>.
\<close>

datatype error =
    Unreachable string
  | AssertionFailed
  | UnreducibleOperator

section \<open>MlirToJlmConverter: floating point sizes and linkage\<close>

text \<open>The enumeration \<^verbatim>\<open>llvm::fpsize\<close>, with the enumerators the converter uses.\<close>

datatype fpsize = half | flt | dbl | x86fp80 | fp128

text \<open>
  \<^verbatim>\<open>MlirToJlmConverter::ConvertFPSize(unsigned int size)\<close>: a switch over the width, whose
  default case is \<^verbatim>\<open>JLM_UNREACHABLE\<close>.
\<close>

definition ConvertFPSize :: "32 word \<Rightarrow> error + fpsize" where
  "ConvertFPSize sz =
     (if sz = 16 then Inr half
      else if sz = 32 then Inr flt
      else if sz = 64 then Inr dbl
      else if sz = 80 then Inr x86fp80
      else if sz = 128 then Inr fp128
      else Inl (Unreachable ''Unsupported floating point size''))"

text \<open>The enumeration \<^verbatim>\<open>linkage\<close>, with the enumerators both converters use.\<close>

datatype linkage =
    external_linkage
  | available_externally_linkage
  | link_once_any_linkage
  | link_once_odr_linkage
  | weak_any_linkage
  | weak_odr_linkage
  | appending_linkage
  | internal_linkage
  | private_linkage
  | external_weak_linkage
  | common_linkage

text \<open>
  \<^verbatim>\<open>MlirToJlmConverter::ConvertLinkage(std::string stringValue)\<close>: a chain of string
  comparisons that ends in \<^verbatim>\<open>JLM_UNREACHABLE\<close>.
\<close>

definition ConvertLinkage :: "string \<Rightarrow> error + linkage" where
  "ConvertLinkage stringValue =
     (if stringValue = ''external_linkage'' then Inr external_linkage
      else if stringValue = ''available_externally_linkage'' then Inr available_externally_linkage
      else if stringValue = ''link_once_any_linkage'' then Inr link_once_any_linkage
      else if stringValue = ''link_once_odr_linkage'' then Inr link_once_odr_linkage
      else if stringValue = ''weak_any_linkage'' then Inr weak_any_linkage
      else if stringValue = ''weak_odr_linkage'' then Inr weak_odr_linkage
      else if stringValue = ''appending_linkage'' then Inr appending_linkage
      else if stringValue = ''internal_linkage'' then Inr internal_linkage
      else if stringValue = ''private_linkage'' then Inr private_linkage
      else if stringValue = ''external_weak_linkage'' then Inr external_weak_linkage
      else if stringValue = ''common_linkage'' then Inr common_linkage
      else Inl (Unreachable ''Unsupported linkage''))"

text \<open>The names \<^verbatim>\<open>ConvertLinkage\<close> compares its argument with, in the order of the chain.\<close>

definition linkage_names :: "string list" where
  "linkage_names =
     [''external_linkage'', ''available_externally_linkage'', ''link_once_any_linkage'',
      ''link_once_odr_linkage'', ''weak_any_linkage'', ''weak_odr_linkage'',
      ''appending_linkage'', ''internal_linkage'', ''private_linkage'',
      ''external_weak_linkage'', ''common_linkage'']"

section \<open>jlm2llvm: linkage\<close>

text \<open>The enumeration \<^verbatim>\<open>llvm::GlobalValue::LinkageTypes\<close> of the LLVM library.\<close>

datatype LinkageTypes =
    ExternalLinkage
  | AvailableExternallyLinkage
  | LinkOnceAnyLinkage
  | LinkOnceODRLinkage
  | WeakAnyLinkage
  | WeakODRLinkage
  | AppendingLinkage
  | InternalLinkage
  | PrivateLinkage
  | ExternalWeakLinkage
  | CommonLinkage

text \<open>The static table of \<^verbatim>\<open>convert_linkage\<close>.\<close>

definition linkage_map :: "(linkage \<times> LinkageTypes) list" where
  "linkage_map =
     [(external_linkage, ExternalLinkage),
      (available_externally_linkage, AvailableExternallyLinkage),
      (link_once_any_linkage, LinkOnceAnyLinkage),
      (link_once_odr_linkage, LinkOnceODRLinkage),
      (weak_any_linkage, WeakAnyLinkage),
      (weak_odr_linkage, WeakODRLinkage),
      (appending_linkage, AppendingLinkage),
      (internal_linkage, InternalLinkage),
      (private_linkage, PrivateLinkage),
      (external_weak_linkage, ExternalWeakLinkage),
      (common_linkage, CommonLinkage)]"

text \<open>
  \<^verbatim>\<open>convert_linkage\<close>: the lookup is guarded by
  \<^verbatim>\<open>JLM_DEBUG_ASSERT(map.find(linkage) != map.end())\<close>.
\<close>

definition convert_linkage :: "linkage \<Rightarrow> error + LinkageTypes" where
  "convert_linkage l =
     (case map_of linkage_map l of
        None \<Rightarrow> Inl AssertionFailed
      | Some t \<Rightarrow> Inr t)"

text \<open>The enumerators of the two linkage enumerations, in the order of the table.\<close>


definition linkage_kinds :: "linkage list" where
  "linkage_kinds =
     [external_linkage, available_externally_linkage, link_once_any_linkage,
      link_once_odr_linkage, weak_any_linkage, weak_odr_linkage, appending_linkage,
      internal_linkage, private_linkage, external_weak_linkage, common_linkage]"

definition llvm_linkage_types :: "LinkageTypes list" where
  "llvm_linkage_types =
     [ExternalLinkage, AvailableExternallyLinkage, LinkOnceAnyLinkage, LinkOnceODRLinkage,
      WeakAnyLinkage, WeakODRLinkage, AppendingLinkage, InternalLinkage, PrivateLinkage,
      ExternalWeakLinkage, CommonLinkage]"

section \<open>MlirToJlmConverter: integer binary operations\<close>

text \<open>
  The MLIR operation classes \<^verbatim>\<open>ConvertBitBinaryNode\<close> casts to; every other operation is
  \<open>OtherOp\<close> with its name. A \<^verbatim>\<open>dyn_cast\<close> to a class succeeds exactly on the operations
  of that class.
\<close>

datatype mlir_op_class =
    AddIOp | AndIOp | ShRUIOp | ShRSIOp | MulIOp | OrIOp | DivSIOp | ShLIOp
  | RemSIOp | SubIOp | DivUIOp | RemUIOp | XOrIOp | OtherOp string

text \<open>
  An operation, as far as \<^verbatim>\<open>ConvertBitBinaryNode\<close> reads it: its class and the value of
  \<^verbatim>\<open>getType().cast<IntegerType>().getWidth()\<close>. The inputs have been converted, so the
  type is one \<^verbatim>\<open>ConvertType\<close> accepts; among the types of an integer arithmetic
  operation that is \<^verbatim>\<open>IntegerType\<close> alone.
\<close>

record mlir_operation =
  op_class :: mlir_op_class
  getWidth :: nat

text \<open>The operators of \<^verbatim>\<open>jlm/rvsdg/bitstring/arithmetic.hpp\<close> the function creates.\<close>

datatype bit_operator =
    bitadd_op | bitand_op | bitashr_op | bitmul_op | bitor_op | bitsdiv_op | bitshl_op
  | bitshr_op | bitsmod_op | bitsub_op | bitudiv_op | bitumod_op | bitxor_op

text \<open>
  \<open>BitNode oper nbits a b\<close> stands for
  \<^verbatim>\<open>rvsdg::output::GetNode(*oper::create(nbits, a, b))\<close>.
\<close>

datatype 'o node_created = BitNode bit_operator nat 'o 'o

definition dyn_cast :: "mlir_op_class \<Rightarrow> mlir_operation \<Rightarrow> bool" where
  "dyn_cast c mlirOperation = (op_class mlirOperation = c)"

text \<open>
  \<^verbatim>\<open>MlirToJlmConverter::ConvertBitBinaryNode\<close>; \<open>None\<close> is \<^verbatim>\<open>nullptr\<close>. The branches
  are in the order of the source, the second test for \<open>ShRUIOp\<close> included.
\<close>

definition ConvertBitBinaryNode :: "mlir_operation \<Rightarrow> 'o list \<Rightarrow> 'o node_created option" where
  "ConvertBitBinaryNode mlirOperation inputs =
     (if length inputs \<noteq> 2 then None
      else if dyn_cast AddIOp mlirOperation
        then Some (BitNode bitadd_op (getWidth mlirOperation) (inputs ! 0) (inputs ! 1))
      else if dyn_cast AndIOp mlirOperation
        then Some (BitNode bitand_op (getWidth mlirOperation) (inputs ! 0) (inputs ! 1))
      else if dyn_cast ShRUIOp mlirOperation
        then Some (BitNode bitashr_op (getWidth mlirOperation) (inputs ! 0) (inputs ! 1))
      else if dyn_cast MulIOp mlirOperation
        then Some (BitNode bitmul_op (getWidth mlirOperation) (inputs ! 0) (inputs ! 1))
      else if dyn_cast OrIOp mlirOperation
        then Some (BitNode bitor_op (getWidth mlirOperation) (inputs ! 0) (inputs ! 1))
      else if dyn_cast DivSIOp mlirOperation
        then Some (BitNode bitsdiv_op (getWidth mlirOperation) (inputs ! 0) (inputs ! 1))
      else if dyn_cast ShLIOp mlirOperation
        then Some (BitNode bitshl_op (getWidth mlirOperation) (inputs ! 0) (inputs ! 1))
      else if dyn_cast ShRUIOp mlirOperation
        then Some (BitNode bitshr_op (getWidth mlirOperation) (inputs ! 0) (inputs ! 1))
      else if dyn_cast RemSIOp mlirOperation
        then Some (BitNode bitsmod_op (getWidth mlirOperation) (inputs ! 0) (inputs ! 1))
      else if dyn_cast SubIOp mlirOperation
        then Some (BitNode bitsub_op (getWidth mlirOperation) (inputs ! 0) (inputs ! 1))
      else if dyn_cast DivUIOp mlirOperation
        then Some (BitNode bitudiv_op (getWidth mlirOperation) (inputs ! 0) (inputs ! 1))
      else if dyn_cast RemUIOp mlirOperation
        then Some (BitNode bitumod_op (getWidth mlirOperation) (inputs ! 0) (inputs ! 1))
      else if dyn_cast XOrIOp mlirOperation
        then Some (BitNode bitxor_op (getWidth mlirOperation) (inputs ! 0) (inputs ! 1))
      else None)"

section \<open>Binary operators (jlm/rvsdg/binary.hpp)\<close>

text \<open>
  \<^verbatim>\<open>typedef size_t binop_reduction_path_t\<close> and the eight constants at the end of the
  header.
\<close>

type_synonym binop_reduction_path_t = "64 word"

definition binop_reduction_none :: binop_reduction_path_t where
  "binop_reduction_none = 0"

definition binop_reduction_constants :: binop_reduction_path_t where
  "binop_reduction_constants = 1"

definition binop_reduction_merge :: binop_reduction_path_t where
  "binop_reduction_merge = 2"

definition binop_reduction_lfold :: binop_reduction_path_t where
  "binop_reduction_lfold = 3"

definition binop_reduction_rfold :: binop_reduction_path_t where
  "binop_reduction_rfold = 4"

definition binop_reduction_lneutral :: binop_reduction_path_t where
  "binop_reduction_lneutral = 5"

definition binop_reduction_rneutral :: binop_reduction_path_t where
  "binop_reduction_rneutral = 6"

definition binop_reduction_factor :: binop_reduction_path_t where
  "binop_reduction_factor = 7"

text \<open>
  Modelled from the spec: \<^verbatim>\<open>can_reduce_operand_pair\<close> is pure virtual in
  \<^verbatim>\<open>binary_op\<close> and none of its overrides is among the sources. Section 4.5.2 of the
  specification says that it returns one of
  \<^verbatim>\<open>none | constants | merge | lfold | rfold | lneutral | rneutral | factor\<close>; the
  datatype has these eight alternatives, and \<open>path_tag\<close> gives each the constant the
  header declares for it.
\<close>

datatype reduction_path =
    path_none | path_constants | path_merge | path_lfold | path_rfold
  | path_lneutral | path_rneutral | path_factor

fun path_tag :: "reduction_path \<Rightarrow> binop_reduction_path_t" where
  "path_tag path_none = binop_reduction_none"
| "path_tag path_constants = binop_reduction_constants"
| "path_tag path_merge = binop_reduction_merge"
| "path_tag path_lfold = binop_reduction_lfold"
| "path_tag path_rfold = binop_reduction_rfold"
| "path_tag path_lneutral = binop_reduction_lneutral"
| "path_tag path_rneutral = binop_reduction_rneutral"
| "path_tag path_factor = binop_reduction_factor"

text \<open>
  \<^verbatim>\<open>enum class binary_op::flags { none = 0, associative = 1, commutative = 2 }\<close>, read
  through \<^verbatim>\<open>static_cast<int>\<close> as the operators \<^verbatim>\<open>|\<close> and \<^verbatim>\<open>&\<close> of the header do.
\<close>

type_synonym flags = int

definition flags_none :: flags where
  "flags_none = 0"

definition flags_associative :: flags where
  "flags_associative = 1"

definition flags_commutative :: flags where
  "flags_commutative = 2"

definition flags_or :: "flags \<Rightarrow> flags \<Rightarrow> flags" where
  "flags_or a b = a OR b"

definition flags_and :: "flags \<Rightarrow> flags \<Rightarrow> flags" where
  "flags_and a b = a AND b"

text \<open>
  A binary operator, as far as the header reads it: the value of the virtual
  \<^verbatim>\<open>flags()\<close> and the reduction hook. The type \<open>'o\<close> is that of output ports.
\<close>

record 'o binary_op =
  flags :: flags
  can_reduce_operand_pair :: "'o \<Rightarrow> 'o \<Rightarrow> reduction_path"

text \<open>The conversion of the \<^verbatim>\<open>int\<close> to \<^verbatim>\<open>bool\<close> is the test against zero.\<close>

definition is_associative :: "'o binary_op \<Rightarrow> bool" where
  "is_associative b = (flags_and (flags b) flags_associative \<noteq> 0)"

definition is_commutative :: "'o binary_op \<Rightarrow> bool" where
  "is_commutative b = (flags_and (flags b) flags_commutative \<noteq> 0)"

text \<open>
  \<^verbatim>\<open>flattened_binary_op\<close>: the wrapped operator \<^verbatim>\<open>op_\<close> and the number of arguments
  handed to \<^verbatim>\<open>simple_op\<close>. The class has no member that assigns \<^verbatim>\<open>op_\<close>. A name
  cannot end in an underscore here, so the member \<^verbatim>\<open>op_\<close> is \<open>op_f\<close>, and likewise for the
  toggles of \<^verbatim>\<open>binary_normal_form\<close> below.
\<close>

record 'o flattened_binary_op =
  op_f :: "'o binary_op"
  narguments :: nat

text \<open>
  The two constructors. The first takes over the operator it is given, the second stores
  \<^verbatim>\<open>op.copy()\<close>, a copy that equals the operator; both end in
  \<^verbatim>\<open>JLM_ASSERT(op_->is_associative())\<close>.
\<close>

definition flattened_binary_op_move ::
  "'o binary_op \<Rightarrow> nat \<Rightarrow> error + 'o flattened_binary_op" where
  "flattened_binary_op_move b n =
     (let self = \<lparr>op_f = b, narguments = n\<rparr>
      in if is_associative (op_f self) then Inr self else Inl UnreducibleOperator)"

definition flattened_binary_op_copy ::
  "'o binary_op \<Rightarrow> nat \<Rightarrow> error + 'o flattened_binary_op" where
  "flattened_binary_op_copy b n =
     (let self = \<lparr>op_f = b, narguments = n\<rparr>
      in if is_associative (op_f self) then Inr self else Inl UnreducibleOperator)"

definition bin_operation :: "'o flattened_binary_op \<Rightarrow> 'o binary_op" where
  "bin_operation f = op_f f"

text \<open>\<^verbatim>\<open>binary_normal_form\<close>: the five private toggles and their getters.\<close>

record binary_normal_form =
  enable_reducible_f :: bool
  enable_reorder_f :: bool
  enable_flatten_f :: bool
  enable_distribute_f :: bool
  enable_factorize_f :: bool

definition get_reducible :: "binary_normal_form \<Rightarrow> bool" where
  "get_reducible nf = enable_reducible_f nf"

definition get_flatten :: "binary_normal_form \<Rightarrow> bool" where
  "get_flatten nf = enable_flatten_f nf"

definition get_reorder :: "binary_normal_form \<Rightarrow> bool" where
  "get_reorder nf = enable_reorder_f nf"

definition get_distribute :: "binary_normal_form \<Rightarrow> bool" where
  "get_distribute nf = enable_distribute_f nf"

definition get_factorize :: "binary_normal_form \<Rightarrow> bool" where
  "get_factorize nf = enable_factorize_f nf"

text \<open>
  Modelled from the spec: the constructor of \<^verbatim>\<open>binary_normal_form\<close> is declared in the
  header and defined in \<^verbatim>\<open>binary.cpp\<close>, which is not among the sources. Section 4.5 of the
  specification says that a normal form exposes toggles, all default-on, and lists
  \<^verbatim>\<open>reducible\<close>, \<^verbatim>\<open>reorder\<close>, \<^verbatim>\<open>flatten\<close>, \<^verbatim>\<open>distribute\<close> and \<^verbatim>\<open>factorize\<close> among them.
  The arguments are the operator class and the parent normal form, if any; the
  specification gives them no part in the toggles.
\<close>

definition binary_normal_form_create ::
  "string \<Rightarrow> binary_normal_form option \<Rightarrow> binary_normal_form" where
  "binary_normal_form_create operator_class parent =
     \<lparr>enable_reducible_f = True, enable_reorder_f = True, enable_flatten_f = True,
      enable_distribute_f = True, enable_factorize_f = True\<rparr>"

section \<open>CFG nodes and edges (jlm/ir/cfg_node.hpp and jlm/jlm/ir/cfg-node.hpp)\<close>

text \<open>
  Nodes and edges are objects that point at each other, and \<^verbatim>\<open>remove_outedge\<close> writes
  the index of an edge through a pointer that the in-edge container of another node holds
  too. The model is therefore a store: \<open>node_ref\<close> and \<open>edge_ref\<close> are addresses,
  \<open>edge_at\<close> holds the live \<^verbatim>\<open>cfg_edge\<close> objects, and \<open>node_at\<close> the nodes. Neither
  operation creates or destroys a node, so every \<open>node_ref\<close> names a node.
\<close>

type_synonym node_ref = nat
type_synonym edge_ref = nat

text \<open>
  \<^verbatim>\<open>class cfg_edge\<close>; \<^verbatim>\<open>index_\<close> is a \<^verbatim>\<open>size_t\<close>. A name cannot end in an underscore
  here, so the private members \<^verbatim>\<open>source_\<close>, \<^verbatim>\<open>sink_\<close>, \<^verbatim>\<open>index_\<close>, \<^verbatim>\<open>outedges_\<close> and
  \<^verbatim>\<open>inedges_\<close> are \<open>source_f\<close>, \<open>sink_f\<close>, \<open>index_f\<close>, \<open>outedges_f\<close> and \<open>inedges_f\<close>.
\<close>

record cfg_edge =
  source_f :: node_ref
  sink_f :: node_ref
  index_f :: "64 word"

text \<open>
  \<^verbatim>\<open>class cfg_node\<close>. \<^verbatim>\<open>outedges_\<close> is a vector of \<^verbatim>\<open>unique_ptr<cfg_edge>\<close>, and \<open>None\<close>
  an empty pointer. The type \<open>'c\<close> of \<^verbatim>\<open>inedges_\<close> is \<open>edge_ref list\<close> for the
  \<^verbatim>\<open>std::list<cfg_edge*>\<close> of \<^verbatim>\<open>cfg_node.hpp\<close> and \<open>edge_ref set\<close> for the
  \<^verbatim>\<open>std::unordered_set<cfg_edge*>\<close> of \<^verbatim>\<open>cfg-node.hpp\<close>.
\<close>

record 'c cfg_node =
  outedges_f :: "edge_ref option list"
  inedges_f :: 'c

record 'c cfg_heap =
  edge_at :: "edge_ref \<rightharpoonup> cfg_edge"
  node_at :: "node_ref \<Rightarrow> 'c cfg_node"

text \<open>
  Modelled from the spec: \<^verbatim>\<open>noutedges()\<close> and \<^verbatim>\<open>ninedges()\<close> are declared in both
  headers and defined in a file that is not among the sources. By invariant I6 of the
  specification the indices of the out-edges of a node are 0 up to their number, so
  \<^verbatim>\<open>noutedges()\<close> is the size of \<^verbatim>\<open>outedges_\<close>, and \<^verbatim>\<open>ninedges()\<close> that of \<^verbatim>\<open>inedges_\<close>.
\<close>

definition noutedges :: "'c cfg_heap \<Rightarrow> node_ref \<Rightarrow> nat" where
  "noutedges h this = length (outedges_f (node_at h this))"

definition ninedges :: "edge_ref list cfg_heap \<Rightarrow> node_ref \<Rightarrow> nat" where
  "ninedges h this = length (inedges_f (node_at h this))"

definition ninedges_uset :: "edge_ref set cfg_heap \<Rightarrow> node_ref \<Rightarrow> nat" where
  "ninedges_uset h this = card (inedges_f (node_at h this))"

text \<open>
  \<^verbatim>\<open>outedge(n)\<close>: the pointer in slot \<open>n\<close>, behind
  \<^verbatim>\<open>JLM_DEBUG_ASSERT(n < noutedges())\<close>.
\<close>

definition outedge :: "'c cfg_heap \<Rightarrow> node_ref \<Rightarrow> nat \<Rightarrow> error + edge_ref option" where
  "outedge h this n =
     (if n < noutedges h this then Inr (outedges_f (node_at h this) ! n)
      else Inl AssertionFailed)"

text \<open>
  \<^verbatim>\<open>add_outedge(sink)\<close> of \<^verbatim>\<open>cfg_node.hpp\<close>. The argument \<open>e\<close> is the address of the
  object \<^verbatim>\<open>std::make_unique<cfg_edge>(this, sink, noutedges())\<close> makes; the new pointer is
  pushed on \<^verbatim>\<open>outedges_\<close> and then on the \<^verbatim>\<open>inedges_\<close> of the sink. The function returns
  the store; the pointer the source returns is \<open>e\<close>.
\<close>

definition add_outedge ::
  "edge_ref list cfg_heap \<Rightarrow> node_ref \<Rightarrow> node_ref \<Rightarrow> edge_ref \<Rightarrow> edge_ref list cfg_heap" where
  "add_outedge h this sink e =
     (let new_edge = \<lparr>source_f = this, sink_f = sink, index_f = of_nat (noutedges h this)\<rparr>;
          h1 = h\<lparr>edge_at := (edge_at h)(e \<mapsto> new_edge)\<rparr>;
          n1 = node_at h1 this;
          h2 = h1\<lparr>node_at := (node_at h1)(this := n1\<lparr>outedges_f := outedges_f n1 @ [Some e]\<rparr>)\<rparr>;
          n2 = node_at h2 sink
      in h2\<lparr>node_at := (node_at h2)(sink := n2\<lparr>inedges_f := inedges_f n2 @ [e]\<rparr>)\<rparr>)"

text \<open>The same member of \<^verbatim>\<open>cfg-node.hpp\<close>, which inserts into the unordered set.\<close>

definition add_outedge_uset ::
  "edge_ref set cfg_heap \<Rightarrow> node_ref \<Rightarrow> node_ref \<Rightarrow> edge_ref \<Rightarrow> edge_ref set cfg_heap" where
  "add_outedge_uset h this sink e =
     (let new_edge = \<lparr>source_f = this, sink_f = sink, index_f = of_nat (noutedges h this)\<rparr>;
          h1 = h\<lparr>edge_at := (edge_at h)(e \<mapsto> new_edge)\<rparr>;
          n1 = node_at h1 this;
          h2 = h1\<lparr>node_at := (node_at h1)(this := n1\<lparr>outedges_f := outedges_f n1 @ [Some e]\<rparr>)\<rparr>;
          n2 = node_at h2 sink
      in h2\<lparr>node_at := (node_at h2)(sink := n2\<lparr>inedges_f := insert e (inedges_f n2)\<rparr>)\<rparr>)"

text \<open>
  The destructor of a \<^verbatim>\<open>unique_ptr\<close>, and its \<^verbatim>\<open>reset\<close>: the object it owns, if any,
  stops being live.
\<close>

definition destroy :: "(edge_ref \<rightharpoonup> cfg_edge) \<Rightarrow> edge_ref option \<Rightarrow> (edge_ref \<rightharpoonup> cfg_edge)" where
  "destroy edges p = (case p of None \<Rightarrow> edges | Some e \<Rightarrow> edges(e := None))"

text \<open>
  The loop of \<^verbatim>\<open>remove_outedge\<close>, the same text in both headers:
  \<^verbatim>\<open>for (size_t i = n+1; i < noutedges(); i++) {
    outedges_[i-1] = std::move(outedges_[i]);
    outedges_[i-1]->index_ = outedges_[i-1]->index_-1; }\<close>
  It reads and writes the edge objects and the vector \<^verbatim>\<open>outedges_\<close> of this node, which
  are its state here. The move assignment empties slot \<open>i\<close> and destroys what slot
  \<open>i-1\<close> owned. Writing through an empty or a dangling pointer has no defined result,
  which is \<open>None\<close>.
\<close>

function remove_outedge_loop ::
  "(edge_ref \<rightharpoonup> cfg_edge) \<Rightarrow> edge_ref option list \<Rightarrow> nat
     \<Rightarrow> ((edge_ref \<rightharpoonup> cfg_edge) \<times> edge_ref option list) option" where
  "remove_outedge_loop edges es i =
     (if i < length es then
        (let moved = es ! i;
             edges1 = destroy edges (es ! (i - 1));
             es1 = es[i := None, i - 1 := moved]
         in case es1 ! (i - 1) of
              None \<Rightarrow> None
            | Some e \<Rightarrow>
                (case edges1 e of
                   None \<Rightarrow> None
                 | Some ed \<Rightarrow>
                     remove_outedge_loop (edges1(e \<mapsto> ed\<lparr>index_f := index_f ed - 1\<rparr>)) es1 (i + 1)))
      else Some (edges, es))"
  by pat_completeness auto
termination
  by (relation "measure (\<lambda>(edges, es, i). length es - i)") auto

text \<open>
  \<^verbatim>\<open>outedges_.resize(m)\<close>: a shorter vector loses its last slots, whose objects are
  destroyed; a longer one gains empty pointers.
\<close>

definition resize ::
  "(edge_ref \<rightharpoonup> cfg_edge) \<Rightarrow> edge_ref option list \<Rightarrow> nat
     \<Rightarrow> (edge_ref \<rightharpoonup> cfg_edge) \<times> edge_ref option list" where
  "resize edges es m =
     (if m \<le> length es then (foldl destroy edges (drop m es), take m es)
      else (edges, es @ replicate (m - length es) None))"

text \<open>
  \<^verbatim>\<open>remove_outedge(n)\<close> of \<^verbatim>\<open>cfg_node.hpp\<close>: the assertion, the removal of the pointer
  from the \<^verbatim>\<open>inedges_\<close> of the sink (\<^verbatim>\<open>std::list::remove\<close> takes out every element equal to
  it), the loop and the resize.
\<close>

definition remove_outedge ::
  "edge_ref list cfg_heap \<Rightarrow> node_ref \<Rightarrow> nat \<Rightarrow> edge_ref list cfg_heap option" where
  "remove_outedge h this n =
     (if \<not> n < noutedges h this then None
      else case outedges_f (node_at h this) ! n of
        None \<Rightarrow> None
      | Some edge \<Rightarrow>
          (case edge_at h edge of
             None \<Rightarrow> None
           | Some ed \<Rightarrow>
               (let s = node_at h (sink_f ed);
                    h1 = h\<lparr>node_at := (node_at h)
                            (sink_f ed := s\<lparr>inedges_f := removeAll edge (inedges_f s)\<rparr>)\<rparr>
                in case remove_outedge_loop (edge_at h1) (outedges_f (node_at h1 this)) (n + 1) of
                     None \<Rightarrow> None
                   | Some (edges2, es2) \<Rightarrow>
                       (let (edges3, es3) = resize edges2 es2 (length es2 - 1)
                        in Some (h1\<lparr>edge_at := edges3,
                                    node_at := (node_at h1)
                                      (this := (node_at h1 this)\<lparr>outedges_f := es3\<rparr>)\<rparr>)))))"

text \<open>The same member of \<^verbatim>\<open>cfg-node.hpp\<close>, which erases from the unordered set.\<close>

definition remove_outedge_uset ::
  "edge_ref set cfg_heap \<Rightarrow> node_ref \<Rightarrow> nat \<Rightarrow> edge_ref set cfg_heap option" where
  "remove_outedge_uset h this n =
     (if \<not> n < noutedges h this then None
      else case outedges_f (node_at h this) ! n of
        None \<Rightarrow> None
      | Some edge \<Rightarrow>
          (case edge_at h edge of
             None \<Rightarrow> None
           | Some ed \<Rightarrow>
               (let s = node_at h (sink_f ed);
                    h1 = h\<lparr>node_at := (node_at h)
                            (sink_f ed := s\<lparr>inedges_f := inedges_f s - {edge}\<rparr>)\<rparr>
                in case remove_outedge_loop (edge_at h1) (outedges_f (node_at h1 this)) (n + 1) of
                     None \<Rightarrow> None
                   | Some (edges2, es2) \<Rightarrow>
                       (let (edges3, es3) = resize edges2 es2 (length es2 - 1)
                        in Some (h1\<lparr>edge_at := edges3,
                                    node_at := (node_at h1)
                                      (this := (node_at h1 this)\<lparr>outedges_f := es3\<rparr>)\<rparr>)))))"

text \<open>
  A call of one of the two members on a node. An allocation returns the address of no
  live object, so an \<open>Add_outedge\<close> with a live address is not a run of the program.
\<close>

datatype cfg_op =
    Add_outedge node_ref node_ref edge_ref
  | Remove_outedge node_ref nat

fun cfg_step :: "edge_ref list cfg_heap \<Rightarrow> cfg_op \<Rightarrow> edge_ref list cfg_heap option" where
  "cfg_step h (Add_outedge this sink e) =
     (if e \<in> dom (edge_at h) then None else Some (add_outedge h this sink e))"
| "cfg_step h (Remove_outedge this n) = remove_outedge h this n"

fun cfg_step_uset :: "edge_ref set cfg_heap \<Rightarrow> cfg_op \<Rightarrow> edge_ref set cfg_heap option" where
  "cfg_step_uset h (Add_outedge this sink e) =
     (if e \<in> dom (edge_at h) then None else Some (add_outedge_uset h this sink e))"
| "cfg_step_uset h (Remove_outedge this n) = remove_outedge_uset h this n"

fun cfg_run :: "edge_ref list cfg_heap \<Rightarrow> cfg_op list \<Rightarrow> edge_ref list cfg_heap option" where
  "cfg_run h [] = Some h"
| "cfg_run h (c # cs) = (case cfg_step h c of None \<Rightarrow> None | Some h' \<Rightarrow> cfg_run h' cs)"

fun cfg_run_uset :: "edge_ref set cfg_heap \<Rightarrow> cfg_op list \<Rightarrow> edge_ref set cfg_heap option" where
  "cfg_run_uset h [] = Some h"
| "cfg_run_uset h (c # cs) =
     (case cfg_step_uset h c of None \<Rightarrow> None | Some h' \<Rightarrow> cfg_run_uset h' cs)"

text \<open>Nodes as their constructors leave them: no out-edge, no in-edge, no edge object.\<close>

definition cfg_init :: "edge_ref list cfg_heap" where
  "cfg_init = \<lparr>edge_at = Map.empty, node_at = (\<lambda>_. \<lparr>outedges_f = [], inedges_f = []\<rparr>)\<rparr>"

definition cfg_init_uset :: "edge_ref set cfg_heap" where
  "cfg_init_uset = \<lparr>edge_at = Map.empty, node_at = (\<lambda>_. \<lparr>outedges_f = [], inedges_f = {}\<rparr>)\<rparr>"

text \<open>
  What the out-edge interface shows of an edge: the results of \<^verbatim>\<open>source()\<close>, \<^verbatim>\<open>sink()\<close>
  and \<^verbatim>\<open>index()\<close> on each pointer of \<^verbatim>\<open>outedges_\<close>, in the order of the vector.
\<close>

definition outedge_triples :: "'c cfg_heap \<Rightarrow> node_ref \<Rightarrow> (node_ref \<times> node_ref \<times> 64 word) option list" where
  "outedge_triples h this =
     map (\<lambda>p. case p of None \<Rightarrow> None
              | Some e \<Rightarrow> map_option (\<lambda>ed. (source_f ed, sink_f ed, index_f ed)) (edge_at h e))
         (outedges_f (node_at h this))"

declare remove_outedge_loop.simps [simp del]

text \<open>
  What the loop started at \<open>i\<close> leaves of the edge objects: the object slot \<open>i-1\<close> owned
  is gone, and the index of every object owned by a slot from \<open>i\<close> on is one less.
\<close>

definition shifted_edges ::
  "(edge_ref \<rightharpoonup> cfg_edge) \<Rightarrow> edge_ref option list \<Rightarrow> nat \<Rightarrow> (edge_ref \<rightharpoonup> cfg_edge)" where
  "shifted_edges edges es i =
     (\<lambda>x. if es ! (i - 1) = Some x then None
          else if Some x \<in> set (drop i es)
            then map_option (\<lambda>ed. ed\<lparr>index_f := index_f ed - 1\<rparr>) (edges x)
          else edges x)"

text \<open>
  The invariant of the store. Every slot of every \<^verbatim>\<open>outedges_\<close> owns a live edge whose
  source is the node and whose index is the slot; no edge is owned twice; every pointer
  in the \<^verbatim>\<open>inedges_\<close> of a node is a live edge whose sink is the node; and no pointer is
  twice in one \<^verbatim>\<open>inedges_\<close>.
\<close>

definition edges_indexed :: "'c cfg_heap \<Rightarrow> bool" where
  "edges_indexed h =
     (\<forall>v i. i < noutedges h v \<longrightarrow>
        (\<exists>e ed. outedges_f (node_at h v) ! i = Some e \<and> edge_at h e = Some ed
                \<and> source_f ed = v \<and> index_f ed = of_nat i))"

definition edges_owned_once :: "'c cfg_heap \<Rightarrow> bool" where
  "edges_owned_once h =
     (\<forall>v i w j e. i < noutedges h v \<and> j < noutedges h w
        \<and> outedges_f (node_at h v) ! i = Some e \<and> outedges_f (node_at h w) ! j = Some e
        \<longrightarrow> v = w \<and> i = j)"

definition inedges_sound :: "edge_ref list cfg_heap \<Rightarrow> bool" where
  "inedges_sound h =
     (\<forall>v e. e \<in> set (inedges_f (node_at h v)) \<longrightarrow>
        (\<exists>ed. edge_at h e = Some ed \<and> sink_f ed = v))"

definition inedges_distinct :: "edge_ref list cfg_heap \<Rightarrow> bool" where
  "inedges_distinct h = (\<forall>v. distinct (inedges_f (node_at h v)))"

definition cfg_wf :: "edge_ref list cfg_heap \<Rightarrow> bool" where
  "cfg_wf h = (edges_indexed h \<and> edges_owned_once h \<and> inedges_sound h \<and> inedges_distinct h)"

text \<open>
  A store of \<^verbatim>\<open>cfg_node.hpp\<close> read as one of \<^verbatim>\<open>cfg-node.hpp\<close>: each list of in-edges
  becomes the set of its elements.
\<close>

definition uset_of :: "edge_ref list cfg_heap \<Rightarrow> edge_ref set cfg_heap" where
  "uset_of h =
     \<lparr>edge_at = edge_at h,
      node_at = (\<lambda>v. \<lparr>outedges_f = outedges_f (node_at h v),
                        inedges_f = set (inedges_f (node_at h v))\<rparr>)\<rparr>"

section \<open>Stores in a region: the store/store and multiple-origin rewrites\<close>

text \<open>
  Modelled from the spec: the store operator and its normal form
  (\<^verbatim>\<open>jlm/llvm/ir/operators/store.hpp\<close> and its implementation), the region, and the
  \<^verbatim>\<open>normalize\<close> and \<^verbatim>\<open>prune\<close> of the graph are not among the sources; only their test
  \<^verbatim>\<open>TestStore.cpp\<close> is. What follows is taken from sections 3, 4.1, 4.5, 4.5.3 and 4.7 of
  the specification. The origin of an input is an output port: an argument of the region
  (an import of the graph) or an output of a node of the region. A store takes an address, a value and
  memory states, and has one state output for each state operand; every other simple
  node is a \<open>SimpleNode\<close> with the name of its operator, whether the operator is
  side-effecting, its operands and the number of its outputs. A region is the list of
  its nodes, producers before consumers, and its results (the exports of the graph).
\<close>

datatype origin = Argument nat | NodeOutput nat nat

datatype node =
    StoreNode nat nat origin origin "origin list"
  | SimpleNode nat string bool "origin list" nat

record region =
  nodes :: "node list"
  results :: "origin list"

fun node_id :: "node \<Rightarrow> nat" where
  "node_id (StoreNode i alignment a v ss) = i"
| "node_id (SimpleNode i name se xs k) = i"

fun node_operands :: "node \<Rightarrow> origin list" where
  "node_operands (StoreNode i alignment a v ss) = a # v # ss"
| "node_operands (SimpleNode i name se xs k) = xs"

definition ninputs :: "node \<Rightarrow> nat" where
  "ninputs n = length (node_operands n)"

text \<open>
  Modelled from the spec: invariant I7 and section 4.7 name the stores among the nodes
  whose operator declares itself side-effecting.
\<close>

fun side_effecting :: "node \<Rightarrow> bool" where
  "side_effecting (StoreNode i alignment a v ss) = True"
| "side_effecting (SimpleNode i name se xs k) = se"

definition find_node :: "region \<Rightarrow> nat \<Rightarrow> node option" where
  "find_node r i = find (\<lambda>n. node_id n = i) (nodes r)"

text \<open>The output ports that the nodes other than \<open>i\<close> and the results of the region read.\<close>

definition uses_outside :: "region \<Rightarrow> nat \<Rightarrow> origin list" where
  "uses_outside r i =
     concat (map node_operands (filter (\<lambda>n. node_id n \<noteq> i) (nodes r))) @ results r"

text \<open>
  Divert: every input of the region bound to an output \<open>x\<close> is rebound to \<open>f x\<close>
  (section 4.1).
\<close>

fun divert_node :: "(origin \<Rightarrow> origin) \<Rightarrow> node \<Rightarrow> node" where
  "divert_node f (StoreNode i alignment a v ss) = StoreNode i alignment (f a) (f v) (map f ss)"
| "divert_node f (SimpleNode i name se xs k) = SimpleNode i name se (map f xs) k"

definition divert :: "(origin \<Rightarrow> origin) \<Rightarrow> region \<Rightarrow> region" where
  "divert f r = \<lparr>nodes = map (divert_node f) (nodes r), results = map f (results r)\<rparr>"

text \<open>
  Modelled from the spec: the toggles of the store normal form that section 4.5 lists and
  the two rewrites here read.
\<close>

record store_normal_form =
  mutable :: bool
  store_store_reducible :: bool
  multiple_origin_reducible :: bool

text \<open>
  Modelled from the spec: the store/store row of the table in section 4.5.3, "same
  address, same state, newer store dominates older" with the effect "drop older store".
  The newer store \<open>n\<close> reads, in order, exactly the state outputs of an older store to the
  same address, and nothing else in the region reads an output of the older store. The
  result is the older store, if there is one.
\<close>

fun from_node :: "nat \<Rightarrow> origin \<Rightarrow> bool" where
  "from_node i (NodeOutput j m) = (j = i)"
| "from_node i (Argument m) = False"

fun older_store :: "region \<Rightarrow> node \<Rightarrow> node option" where
  "older_store r (StoreNode i2 al2 a2 v2 (NodeOutput i1 k # ss2)) =
     (case find_node r i1 of
        Some (StoreNode j al1 a1 v1 ss1) \<Rightarrow>
          if i1 \<noteq> i2 \<and> a1 = a2
             \<and> NodeOutput i1 k # ss2 = map (NodeOutput i1) [0..<length ss1]
             \<and> list_all (\<lambda>x. \<not> from_node i1 x) (uses_outside r i2)
          then Some (StoreNode j al1 a1 v1 ss1) else None
      | _ \<Rightarrow> None)"
| "older_store r n = None"

text \<open>
  The effect: the older store leaves the region, and the newer store takes the states the
  older store read.
\<close>

fun perform_store_store_reduction :: "region \<Rightarrow> node \<Rightarrow> node \<Rightarrow> region" where
  "perform_store_store_reduction r (StoreNode i2 al2 a2 v2 ss2) (StoreNode i1 al1 a1 v1 ss1) =
     r\<lparr>nodes := map (\<lambda>n. if node_id n = i2 then StoreNode i2 al2 a2 v2 ss1 else n)
                   (filter (\<lambda>n. node_id n \<noteq> i1) (nodes r))\<rparr>"
| "perform_store_store_reduction r n2 n1 = r"

text \<open>
  Modelled from the spec: the multiple-origin row of the same table, "store has duplicate
  state inputs" with the effect "deduplicate state inputs". Each state is kept where it
  first occurs.
\<close>

fun dedup :: "origin list \<Rightarrow> origin list \<Rightarrow> origin list" where
  "dedup seen [] = []"
| "dedup seen (x # xs) = (if x \<in> set seen then dedup seen xs else x # dedup (seen @ [x]) xs)"

definition index_of :: "origin \<Rightarrow> origin list \<Rightarrow> nat" where
  "index_of x xs = length (takeWhile (\<lambda>y. y \<noteq> x) xs)"

fun is_multiple_origin_reducible :: "node \<Rightarrow> bool" where
  "is_multiple_origin_reducible (StoreNode i alignment a v ss) = (\<not> distinct ss)"
| "is_multiple_origin_reducible (SimpleNode i name se xs k) = False"

text \<open>
  The store keeps one state input for each state it read. Its state output \<open>m\<close> belonged
  to the state operand \<open>m\<close>; what read that output is diverted to the output of the
  operand that is kept.
\<close>

fun perform_multiple_origin_reduction :: "region \<Rightarrow> node \<Rightarrow> region" where
  "perform_multiple_origin_reduction r (StoreNode i alignment a v ss) =
     (let r1 = r\<lparr>nodes := map (\<lambda>n. if node_id n = i then StoreNode i alignment a v (dedup [] ss)
                                    else n) (nodes r)\<rparr>
      in divert (\<lambda>x. case x of
                       NodeOutput j m \<Rightarrow>
                         if j = i \<and> m < length ss
                         then NodeOutput i (index_of (ss ! m) (dedup [] ss)) else x
                     | Argument m \<Rightarrow> x) r1)"
| "perform_multiple_origin_reduction r (SimpleNode i name se xs k) = r"

text \<open>
  Modelled from the spec: \<open>normalize_node\<close> of the store normal form (sections 4.5 and 9):
  nothing is rewritten unless the normal form is mutable, and each rewrite is applied when
  its toggle is on and its precondition holds. \<open>normalize_region\<close> is \<^verbatim>\<open>normalize\<close> on the
  root region: it visits the nodes of the region in order, and skips a node that an
  earlier rewrite dropped.
\<close>

definition normalize_node :: "store_normal_form \<Rightarrow> region \<Rightarrow> nat \<Rightarrow> region" where
  "normalize_node nf r i =
     (if \<not> mutable nf then r
      else
        (let r1 = (case find_node r i of
                     None \<Rightarrow> r
                   | Some n \<Rightarrow>
                       if store_store_reducible nf
                       then (case older_store r n of
                               None \<Rightarrow> r
                             | Some n1 \<Rightarrow> perform_store_store_reduction r n n1)
                       else r)
         in case find_node r1 i of
              None \<Rightarrow> r1
            | Some n \<Rightarrow>
                if multiple_origin_reducible nf \<and> is_multiple_origin_reducible n
                then perform_multiple_origin_reduction r1 n
                else r1))"

definition normalize_region :: "store_normal_form \<Rightarrow> region \<Rightarrow> region" where
  "normalize_region nf r = foldl (normalize_node nf) r (map node_id (nodes r))"

text \<open>
  Modelled from the spec: \<open>prune\<close> (sections 4.1 and 4.7). The roots are the results of the
  region and the side-effecting nodes; reachability goes backwards through the operand
  edges, which the sweep follows from the last node to the first, since producers come
  before consumers; the nodes that are not marked are removed.
\<close>

fun producers :: "origin list \<Rightarrow> nat list" where
  "producers [] = []"
| "producers (Argument m # xs) = producers xs"
| "producers (NodeOutput i m # xs) = i # producers xs"

fun mark :: "node list \<Rightarrow> nat list \<Rightarrow> nat list" where
  "mark [] marked = marked"
| "mark (n # ns) marked =
     (if side_effecting n \<or> node_id n \<in> set marked
      then mark ns (node_id n # producers (node_operands n) @ marked)
      else mark ns marked)"

definition prune :: "region \<Rightarrow> region" where
  "prune r =
     (let marked = mark (rev (nodes r)) (producers (results r))
      in r\<lparr>nodes := filter (\<lambda>n. node_id n \<in> set marked) (nodes r)\<rparr>)"

text \<open>
  The rebinding \<open>perform_multiple_origin_reduction\<close> makes for the store \<open>i\<close> over the
  states \<open>ss\<close>: a reader of state output \<open>m\<close> is bound to the output of the state that is
  kept for operand \<open>m\<close>; every other origin stays.
\<close>

definition rebind :: "nat \<Rightarrow> origin list \<Rightarrow> origin \<Rightarrow> origin" where
  "rebind i ss x =
     (case x of
        NodeOutput j m \<Rightarrow>
          if j = i \<and> m < length ss then NodeOutput i (index_of (ss ! m) (dedup [] ss)) else x
      | Argument m \<Rightarrow> x)"

section \<open>Properties of the converters\<close>

lemma UNIV_fpsize: "(UNIV :: fpsize set) = {half, flt, dbl, x86fp80, fp128}"
proof -
  have "x \<in> {half, flt, dbl, x86fp80, fp128}" for x :: fpsize
    by (cases x) simp_all
  then show ?thesis by blast
qed

text \<open>
  Claim C8. The floating point sizes are the five enumerators half, flt, dbl, x86fp80 and
  fp128. \<open>ConvertFPSize\<close> returns a size exactly for the widths 16, 32, 64, 80 and 128,
  which give half, flt, dbl, x86fp80 and fp128 in this order, and for every other width
  it ends in the unreachable failure and returns no value.
\<close>

theorem ConvertFPSize_five_sizes:
  "((ConvertFPSize sz = Inr f) =
      ((sz, f) \<in> {(16, half), (32, flt), (64, dbl), (80, x86fp80), (128, fp128)}))
   \<and> ((\<exists>msg. ConvertFPSize sz = Inl (Unreachable msg)) = (sz \<notin> {16, 32, 64, 80, 128}))
   \<and> (UNIV :: fpsize set) = {half, flt, dbl, x86fp80, fp128}"
  unfolding UNIV_fpsize[symmetric]
  by (auto simp: ConvertFPSize_def)

lemma set_linkage_kinds: "set linkage_kinds = UNIV"
proof -
  have "x \<in> set linkage_kinds" for x :: linkage
    by (cases x) (simp_all add: linkage_kinds_def)
  then show ?thesis by blast
qed

lemma ConvertLinkage_names: "map ConvertLinkage linkage_names = map Inr linkage_kinds"
  by (simp add: ConvertLinkage_def linkage_names_def linkage_kinds_def)

lemma ConvertLinkage_fails:
  "(\<exists>msg. ConvertLinkage s = Inl (Unreachable msg)) = (s \<notin> set linkage_names)"
  by (simp add: ConvertLinkage_def linkage_names_def)

lemma distinct_linkage_names: "distinct linkage_names"
  by (simp add: linkage_names_def)

lemma distinct_linkage_kinds: "distinct linkage_kinds \<and> length linkage_kinds = 11"
  by (simp add: linkage_kinds_def)

lemma convert_linkage_kinds: "map convert_linkage linkage_kinds = map Inr llvm_linkage_types"
  by (simp add: convert_linkage_def linkage_map_def linkage_kinds_def llvm_linkage_types_def)

lemma distinct_llvm_linkage_types: "distinct llvm_linkage_types"
  by (simp add: llvm_linkage_types_def)

lemma convert_linkage_inj: "inj convert_linkage"
proof -
  have "distinct (map convert_linkage linkage_kinds)"
    unfolding convert_linkage_kinds
    by (simp add: distinct_map distinct_llvm_linkage_types)
  then have "inj_on convert_linkage (set linkage_kinds)"
    by (simp add: distinct_map)
  then show ?thesis by (simp add: set_linkage_kinds)
qed

lemma ConvertLinkage_inj: "inj_on ConvertLinkage (set linkage_names)"
proof -
  have "distinct (map ConvertLinkage linkage_names)"
    unfolding ConvertLinkage_names
    by (simp add: distinct_map distinct_linkage_kinds)
  then show ?thesis by (simp add: distinct_map)
qed

text \<open>
  Claim C7. The linkage has eleven kinds. \<open>ConvertLinkage\<close> maps the eleven linkage names
  to the eleven kinds, one each and no two to the same kind, and fails on every other
  string; \<open>convert_linkage\<close> returns an LLVM linkage type for each of the eleven kinds, and
  no two kinds give the same type.
\<close>

theorem linkage_conversions:
  "map ConvertLinkage linkage_names = map Inr linkage_kinds
   \<and> distinct linkage_names \<and> distinct linkage_kinds
   \<and> length linkage_kinds = 11 \<and> set linkage_kinds = UNIV
   \<and> inj_on ConvertLinkage (set linkage_names)
   \<and> ((\<exists>msg. ConvertLinkage s = Inl (Unreachable msg)) = (s \<notin> set linkage_names))
   \<and> map convert_linkage linkage_kinds = map Inr llvm_linkage_types
   \<and> distinct llvm_linkage_types
   \<and> inj convert_linkage"
  using ConvertLinkage_names distinct_linkage_names distinct_linkage_kinds set_linkage_kinds
    ConvertLinkage_inj ConvertLinkage_fails convert_linkage_kinds distinct_llvm_linkage_types
    convert_linkage_inj
  by blast

text \<open>
  Claim C10. For every \<open>ShRUIOp\<close> with two inputs \<open>ConvertBitBinaryNode\<close> returns the node
  of \<open>bitashr_op\<close>, the first branch that matches; the later branch for \<open>ShRUIOp\<close> is never
  taken, so on no operation and no inputs does the function return a node of \<open>bitshr_op\<close>.
\<close>

theorem ConvertBitBinaryNode_ShRUIOp:
  "ConvertBitBinaryNode \<lparr>op_class = ShRUIOp, getWidth = w\<rparr> [a, b]
     = Some (BitNode bitashr_op w a b)
   \<and> ConvertBitBinaryNode mlirOperation inputs \<noteq> Some (BitNode bitshr_op w' a' b')"
  by (simp add: ConvertBitBinaryNode_def dyn_cast_def)

section \<open>Properties of the binary operators\<close>

text \<open>
  Claim C1. The operator a \<open>flattened_binary_op\<close> wraps is associative: each of the two
  constructors returns an object only for an associative operator, the object wraps that
  operator, and for an operator that is not associative the constructor fails with
  \<open>UnreducibleOperator\<close>.
\<close>

theorem flattened_binary_op_associative:
  "(flattened_binary_op_move b n = Inr f \<longrightarrow> is_associative (bin_operation f))
   \<and> (flattened_binary_op_copy b n = Inr f \<longrightarrow> is_associative (bin_operation f))
   \<and> (is_associative b \<longrightarrow>
        flattened_binary_op_move b n = Inr \<lparr>op_f = b, narguments = n\<rparr>
        \<and> flattened_binary_op_copy b n = Inr \<lparr>op_f = b, narguments = n\<rparr>)
   \<and> (\<not> is_associative b \<longrightarrow>
        flattened_binary_op_move b n = Inl UnreducibleOperator
        \<and> flattened_binary_op_copy b n = Inl UnreducibleOperator)"
  by (auto simp: flattened_binary_op_move_def flattened_binary_op_copy_def bin_operation_def)

theorem flattened_binary_op_associative_witness:
  "flattened_binary_op_move
      \<lparr>flags = flags_or flags_associative flags_commutative,
       can_reduce_operand_pair = (\<lambda>(a::nat) b. path_none)\<rparr> 3
     = Inr \<lparr>op_f = \<lparr>flags = flags_or flags_associative flags_commutative,
                    can_reduce_operand_pair = (\<lambda>a b. path_none)\<rparr>, narguments = 3\<rparr>
   \<and> is_associative (bin_operation
        \<lparr>op_f = \<lparr>flags = flags_or flags_associative flags_commutative,
                 can_reduce_operand_pair = (\<lambda>(a::nat) b. path_none)\<rparr>, narguments = 3\<rparr>)
   \<and> \<not> is_associative \<lparr>flags = flags_commutative,
                         can_reduce_operand_pair = (\<lambda>(a::nat) b. path_none)\<rparr>
   \<and> flattened_binary_op_copy
        \<lparr>flags = flags_commutative, can_reduce_operand_pair = (\<lambda>(a::nat) b. path_none)\<rparr> 3
      = Inl UnreducibleOperator"
proof -
  let ?b = "\<lparr>flags = flags_or flags_associative flags_commutative,
             can_reduce_operand_pair = (\<lambda>(a::nat) b. path_none)\<rparr>"
  let ?c = "\<lparr>flags = flags_commutative, can_reduce_operand_pair = (\<lambda>(a::nat) b. path_none)\<rparr>"
  have assoc: "is_associative ?b"
    by (simp add: is_associative_def flags_and_def flags_or_def flags_associative_def
        flags_commutative_def)
  have not_assoc: "\<not> is_associative ?c"
    by (simp add: is_associative_def flags_and_def flags_associative_def flags_commutative_def)
  from assoc flattened_binary_op_associative [of ?b 3 "\<lparr>op_f = ?b, narguments = 3\<rparr>"]
  have "flattened_binary_op_move ?b 3 = Inr \<lparr>op_f = ?b, narguments = 3\<rparr>
        \<and> is_associative (bin_operation \<lparr>op_f = ?b, narguments = 3\<rparr>)"
    by simp
  moreover from not_assoc flattened_binary_op_associative [of ?c 3]
  have "flattened_binary_op_copy ?c 3 = Inl UnreducibleOperator"
    by simp
  ultimately show ?thesis using not_assoc by simp
qed

text \<open>
  Claim C3. The hook \<open>can_reduce_operand_pair\<close> of a binary operator returns one of eight
  reduction paths: none, constants, merge, lfold, rfold, lneutral, rneutral, factor. Their
  eight tags are pairwise distinct and the tag of none is 0, so a tag differs from the tag
  of none exactly for the seven paths that reduce.
\<close>

theorem reduction_paths_distinct:
  "path_tag (can_reduce_operand_pair b op1 op2) \<in>
     {binop_reduction_none, binop_reduction_constants, binop_reduction_merge,
      binop_reduction_lfold, binop_reduction_rfold, binop_reduction_lneutral,
      binop_reduction_rneutral, binop_reduction_factor}
   \<and> distinct
     [binop_reduction_none, binop_reduction_constants, binop_reduction_merge,
      binop_reduction_lfold, binop_reduction_rfold, binop_reduction_lneutral,
      binop_reduction_rneutral, binop_reduction_factor]
   \<and> binop_reduction_none = 0
   \<and> ((path_tag p \<noteq> binop_reduction_none) =
        (p \<in> {path_constants, path_merge, path_lfold, path_rfold, path_lneutral,
              path_rneutral, path_factor}))
   \<and> ((path_tag p = path_tag q) = (p = q))"
proof -
  note tag_defs = binop_reduction_none_def binop_reduction_constants_def
    binop_reduction_merge_def binop_reduction_lfold_def binop_reduction_rfold_def
    binop_reduction_lneutral_def binop_reduction_rneutral_def binop_reduction_factor_def
  have tags: "path_tag r \<in>
     {binop_reduction_none, binop_reduction_constants, binop_reduction_merge,
      binop_reduction_lfold, binop_reduction_rfold, binop_reduction_lneutral,
      binop_reduction_rneutral, binop_reduction_factor}" for r
    by (cases r) simp_all
  have dist: "distinct
     [binop_reduction_none, binop_reduction_constants, binop_reduction_merge,
      binop_reduction_lfold, binop_reduction_rfold, binop_reduction_lneutral,
      binop_reduction_rneutral, binop_reduction_factor]"
    by (simp add: tag_defs)
  have sep: "(path_tag p \<noteq> binop_reduction_none) =
        (p \<in> {path_constants, path_merge, path_lfold, path_rfold, path_lneutral,
              path_rneutral, path_factor})"
    by (cases p) (simp_all add: tag_defs)
  have inj: "(path_tag p = path_tag q) = (p = q)"
    by (cases p; cases q) (simp_all add: tag_defs)
  show ?thesis
    using tags [of "can_reduce_operand_pair b op1 op2"] dist sep inj
    by (simp add: binop_reduction_none_def)
qed

text \<open>
  Claim C4. Right after its construction a binary normal form has every rewrite toggle
  enabled: \<open>get_reducible\<close>, \<open>get_reorder\<close>, \<open>get_flatten\<close>, \<open>get_distribute\<close> and
  \<open>get_factorize\<close> all return true.
\<close>

theorem binary_normal_form_defaults:
  "get_reducible (binary_normal_form_create operator_class parent)
   \<and> get_reorder (binary_normal_form_create operator_class parent)
   \<and> get_flatten (binary_normal_form_create operator_class parent)
   \<and> get_distribute (binary_normal_form_create operator_class parent)
   \<and> get_factorize (binary_normal_form_create operator_class parent)"
  by (simp add: binary_normal_form_create_def get_reducible_def get_reorder_def
      get_flatten_def get_distribute_def get_factorize_def)

section \<open>Properties of the CFG nodes\<close>

lemma loop_stop: "\<not> i < length es \<Longrightarrow> remove_outedge_loop edges es i = Some (edges, es)"
  by (simp add: remove_outedge_loop.simps)

lemma loop_step:
  assumes "i < length es" and "1 \<le> i" and "es ! i = Some e"
    and "destroy edges (es ! (i - 1)) e = Some ed"
  shows "remove_outedge_loop edges es i =
     remove_outedge_loop ((destroy edges (es ! (i - 1)))(e \<mapsto> ed\<lparr>index_f := index_f ed - 1\<rparr>))
       (es[i := None, i - 1 := Some e]) (i + 1)"
proof -
  have "(es[i := None, i - 1 := Some e]) ! (i - 1) = Some e"
    using assms(1) by simp
  then show ?thesis
    using assms by (subst remove_outedge_loop.simps) (simp add: Let_def)
qed

lemma loop_lists:
  assumes "1 \<le> i" and "i < length es" and "es ! i = Some e"
  shows "take i (es[i := None, i - 1 := Some e]) = take (i - 1) es @ [Some e]"
    and "drop (i + 1) (es[i := None, i - 1 := Some e]) = drop (i + 1) es"
    and "drop i es = Some e # drop (i + 1) es"
proof -
  from assms obtain k where k: "i = Suc k" by (cases i) auto
  show "take i (es[i := None, i - 1 := Some e]) = take (i - 1) es @ [Some e]"
    using assms k by (simp add: take_Suc_conv_app_nth)
  show "drop (i + 1) (es[i := None, i - 1 := Some e]) = drop (i + 1) es"
    using assms k by simp
  show "drop i es = Some e # drop (i + 1) es"
    using assms Cons_nth_drop_Suc [of i es] by simp
qed

lemma loop_spec:
  assumes "1 \<le> i" and "i < length es"
    and live: "\<forall>j. i \<le> j \<and> j < length es \<longrightarrow> (\<exists>e. es ! j = Some e \<and> e \<in> dom edges)"
    and uniq: "\<forall>j k e. i - 1 \<le> j \<and> j < k \<and> k < length es \<and> es ! j = Some e
                 \<longrightarrow> es ! k \<noteq> Some e"
  shows "remove_outedge_loop edges es i =
     Some (shifted_edges edges es i, take (i - 1) es @ drop i es @ [None])"
  using assms
proof (induction "length es - i" arbitrary: edges es i)
  case 0
  then show ?case by simp
next
  case (Suc d)
  from Suc.prems obtain e ed where e: "es ! i = Some e" and ed: "edges e = Some ed"
    by (metis domD le_refl)
  have uniqD: "es ! k \<noteq> Some x"
    if "i - 1 \<le> j" and "j < k" and "k < length es" and "es ! j = Some x" for j k x
    using Suc.prems(4) that by blast
  have in_dropD: "\<exists>k. i + 1 \<le> k \<and> k < length es \<and> es ! k = y"
    if "y \<in> set (drop (i + 1) es)" for y
  proof -
    from that obtain m where "m < length es - (i + 1)" and "drop (i + 1) es ! m = y"
      by (auto simp: in_set_conv_nth)
    then have "i + 1 \<le> i + 1 + m \<and> i + 1 + m < length es \<and> es ! (i + 1 + m) = y"
      by simp
    then show ?thesis by blast
  qed
  have uniq_old: "es ! (i - 1) \<noteq> Some x"
    if "i \<le> k" and "k < length es" and "es ! k = Some x" for k x
  proof
    assume "es ! (i - 1) = Some x"
    moreover have "i - 1 < k" using that(1) Suc.prems(1) by arith
    ultimately show False using uniqD [of "i - 1" k x] that by simp
  qed
  have old: "es ! (i - 1) \<noteq> Some e"
    using uniq_old [of i e] Suc.prems(2) e by simp
  have fresh: "Some e \<notin> set (drop (i + 1) es)"
  proof
    assume "Some e \<in> set (drop (i + 1) es)"
    then obtain k where "i + 1 \<le> k" and "k < length es" and "es ! k = Some e"
      using in_dropD by blast
    with uniqD [of i k e] e show False by simp
  qed
  have ed1: "destroy edges (es ! (i - 1)) e = Some ed"
    using old ed by (auto simp: destroy_def split: option.splits)
  let ?edges2 = "(destroy edges (es ! (i - 1)))(e \<mapsto> ed\<lparr>index_f := index_f ed - 1\<rparr>)"
  let ?es1 = "es[i := None, i - 1 := Some e]"
  note lists = loop_lists [OF Suc.prems(1,2) e]
  have step: "remove_outedge_loop edges es i = remove_outedge_loop ?edges2 ?es1 (i + 1)"
    by (rule loop_step [OF Suc.prems(2,1) e ed1])
  have edges_eq: "(\<lambda>x. if x = e then Some (ed\<lparr>index_f := index_f ed - 1\<rparr>)
                       else if Some x \<in> set (drop (i + 1) es)
                         then map_option (\<lambda>ed. ed\<lparr>index_f := index_f ed - 1\<rparr>) (?edges2 x)
                       else ?edges2 x) = shifted_edges edges es i"
  proof
    fix x
    have "es ! (i - 1) = Some x \<Longrightarrow> Some x \<notin> set (drop (i + 1) es)"
    proof
      assume a: "es ! (i - 1) = Some x" and "Some x \<in> set (drop (i + 1) es)"
      then obtain k where "i + 1 \<le> k" and "k < length es" and "es ! k = Some x"
        using in_dropD by blast
      with uniq_old [of k x] a show False by simp
    qed
    then show "(if x = e then Some (ed\<lparr>index_f := index_f ed - 1\<rparr>)
                       else if Some x \<in> set (drop (i + 1) es)
                         then map_option (\<lambda>ed. ed\<lparr>index_f := index_f ed - 1\<rparr>) (?edges2 x)
                       else ?edges2 x) = shifted_edges edges es i x"
      using old ed fresh
      by (auto simp: shifted_edges_def lists(3) destroy_def split: option.splits)
  qed
  show ?case
  proof (cases "i + 1 < length es")
    case False
    then have len: "length es = i + 1" using Suc.prems(2) by simp
    have "remove_outedge_loop ?edges2 ?es1 (i + 1) = Some (?edges2, ?es1)"
      using len by (simp add: loop_stop)
    moreover have "?es1 = take (i - 1) es @ drop i es @ [None]"
    proof -
      have "?es1 = take i ?es1 @ drop i ?es1" by simp
      also have "drop i ?es1 = [None]"
        using len Suc.prems(1) by (simp add: drop_update_swap Cons_nth_drop_Suc [symmetric])
      finally show ?thesis using lists len by simp
    qed
    moreover have "?edges2 = shifted_edges edges es i"
      using edges_eq len by (auto simp: fun_eq_iff split: if_splits)
    ultimately show ?thesis using step by simp
  next
    case True
    have d: "d = length ?es1 - (i + 1)" using Suc.hyps(2) by simp
    have live1: "\<forall>j. i + 1 \<le> j \<and> j < length ?es1 \<longrightarrow> (\<exists>e. ?es1 ! j = Some e \<and> e \<in> dom ?edges2)"
    proof (intro allI impI)
      fix j assume j: "i + 1 \<le> j \<and> j < length ?es1"
      then have "i \<le> j \<and> j < length es" by simp
      then obtain x where x: "es ! j = Some x" "x \<in> dom edges"
        using Suc.prems(3) by blast
      have "es ! (i - 1) \<noteq> Some x"
        using uniq_old [of j x] j x(1) by simp
      then have "x \<in> dom ?edges2"
        using x(2) by (auto simp: destroy_def split: option.splits)
      moreover have "?es1 ! j = Some x"
      proof -
        have "j \<noteq> i" and "j \<noteq> i - 1" using j by arith+
        then show ?thesis using x(1) by simp
      qed
      ultimately show "\<exists>e. ?es1 ! j = Some e \<and> e \<in> dom ?edges2" by blast
    qed
    have uniq1: "\<forall>j k x. i + 1 - 1 \<le> j \<and> j < k \<and> k < length ?es1 \<and> ?es1 ! j = Some x
                 \<longrightarrow> ?es1 ! k \<noteq> Some x"
    proof (intro allI impI)
      fix j k x assume a: "i + 1 - 1 \<le> j \<and> j < k \<and> k < length ?es1 \<and> ?es1 ! j = Some x"
      have "?es1 ! i = None"
      proof -
        have "i - 1 \<noteq> i" using Suc.prems(1) by arith
        then show ?thesis using Suc.prems(2) by simp
      qed
      with a have "j \<noteq> i" by auto
      moreover have "j \<noteq> i - 1" and "k \<noteq> i" and "k \<noteq> i - 1" and "i - 1 \<le> j"
        using a Suc.prems(1) by arith+
      ultimately have "es ! j = Some x" and "?es1 ! k = es ! k" and "i - 1 \<le> j"
        using a by simp_all
      with a uniqD [of j k x] show "?es1 ! k \<noteq> Some x"
        by simp
    qed
    have "remove_outedge_loop ?edges2 ?es1 (i + 1) =
        Some (shifted_edges ?edges2 ?es1 (i + 1),
              take (i + 1 - 1) ?es1 @ drop (i + 1) ?es1 @ [None])"
      using Suc.hyps(1) [OF d _ _ live1 uniq1] True by simp
    moreover have "take (i + 1 - 1) ?es1 @ drop (i + 1) ?es1 @ [None]
        = take (i - 1) es @ drop i es @ [None]"
      using lists by simp
    moreover have "shifted_edges ?edges2 ?es1 (i + 1) = shifted_edges edges es i"
    proof -
      have "i - 1 \<noteq> i" using Suc.prems(1) by arith
      then have "?es1 ! i = None" using Suc.prems(2) by simp
      then have "shifted_edges ?edges2 ?es1 (i + 1) =
         (\<lambda>x. if Some x \<in> set (drop (i + 1) es)
                  then map_option (\<lambda>ed. ed\<lparr>index_f := index_f ed - 1\<rparr>) (?edges2 x)
                else ?edges2 x)"
        by (simp add: shifted_edges_def lists(2) cong: if_cong)
      also have "\<dots> = (\<lambda>x. if x = e then Some (ed\<lparr>index_f := index_f ed - 1\<rparr>)
                       else if Some x \<in> set (drop (i + 1) es)
                         then map_option (\<lambda>ed. ed\<lparr>index_f := index_f ed - 1\<rparr>) (?edges2 x)
                       else ?edges2 x)"
        using fresh by (auto simp: fun_eq_iff)
      finally show ?thesis using edges_eq by simp
    qed
    ultimately show ?thesis using step by simp
  qed
qed


lemma cfg_wf_init: "cfg_wf cfg_init"
  by (simp add: cfg_wf_def cfg_init_def edges_indexed_def edges_owned_once_def
      inedges_sound_def inedges_distinct_def noutedges_def)

lemma add_outedge_parts:
  "edge_at (add_outedge h this sink e) =
     (edge_at h)(e \<mapsto> \<lparr>source_f = this, sink_f = sink, index_f = of_nat (noutedges h this)\<rparr>)"
  "outedges_f (node_at (add_outedge h this sink e) v) =
     (if v = this then outedges_f (node_at h v) @ [Some e] else outedges_f (node_at h v))"
  "inedges_f (node_at (add_outedge h this sink e) v) =
     (if v = sink then inedges_f (node_at h v) @ [e] else inedges_f (node_at h v))"
  by (simp_all add: add_outedge_def Let_def)

lemma noutedges_add:
  "noutedges (add_outedge h this sink e) v = (if v = this then Suc (noutedges h v) else noutedges h v)"
  by (simp add: noutedges_def add_outedge_parts)

lemma indexed_live:
  assumes "edges_indexed h" and "i < noutedges h v" and "outedges_f (node_at h v) ! i = Some x"
  shows "x \<in> dom (edge_at h)"
  using assms unfolding edges_indexed_def by fastforce

lemma add_outedge_indexed:
  assumes "edges_indexed h" and "e \<notin> dom (edge_at h)"
  shows "edges_indexed (add_outedge h this sink e)"
  unfolding edges_indexed_def
proof (intro allI impI)
  fix v i assume i: "i < noutedges (add_outedge h this sink e) v"
  show "\<exists>x ed. outedges_f (node_at (add_outedge h this sink e) v) ! i = Some x
          \<and> edge_at (add_outedge h this sink e) x = Some ed
          \<and> source_f ed = v \<and> index_f ed = of_nat i"
  proof (cases "v = this \<and> i = noutedges h this")
    case True
    then show ?thesis
      by (simp add: add_outedge_parts noutedges_def)
  next
    case False
    with i have old: "i < noutedges h v"
      by (auto simp: noutedges_add split: if_splits)
    then obtain x ed where x: "outedges_f (node_at h v) ! i = Some x" "edge_at h x = Some ed"
        "source_f ed = v" "index_f ed = of_nat i"
      using assms(1) unfolding edges_indexed_def by blast
    then have ne: "x \<noteq> e" using assms(2) by auto
    from x old have "outedges_f (node_at (add_outedge h this sink e) v) ! i = Some x"
      by (auto simp: add_outedge_parts noutedges_def nth_append)
    moreover from x ne have "edge_at (add_outedge h this sink e) x = Some ed"
      by (simp add: add_outedge_parts)
    ultimately show ?thesis using x(3,4) by blast
  qed
qed

lemma add_outedge_owned_once:
  assumes "edges_indexed h" and "edges_owned_once h" and "e \<notin> dom (edge_at h)"
  shows "edges_owned_once (add_outedge h this sink e)"
  unfolding edges_owned_once_def
proof (intro allI impI)
  fix v i w j x
  assume a: "i < noutedges (add_outedge h this sink e) v \<and>
       j < noutedges (add_outedge h this sink e) w \<and>
       outedges_f (node_at (add_outedge h this sink e) v) ! i = Some x \<and>
       outedges_f (node_at (add_outedge h this sink e) w) ! j = Some x"
  have new_or_old: "(v' = this \<and> i' = noutedges h this \<and> x = e)
       \<or> (i' < noutedges h v' \<and> outedges_f (node_at h v') ! i' = Some x \<and> x \<noteq> e)"
    if "i' < noutedges (add_outedge h this sink e) v'"
      and "outedges_f (node_at (add_outedge h this sink e) v') ! i' = Some x" for v' i'
  proof (cases "v' = this \<and> i' = noutedges h this")
    case True
    with that show ?thesis by (simp add: add_outedge_parts noutedges_def)
  next
    case False
    with that(1) have old: "i' < noutedges h v'"
      by (auto simp: noutedges_add split: if_splits)
    with that(2) have "outedges_f (node_at h v') ! i' = Some x"
      by (auto simp: add_outedge_parts noutedges_def nth_append split: if_splits)
    moreover from this old have "x \<noteq> e"
      using indexed_live [OF assms(1)] assms(3) by blast
    ultimately show ?thesis using old by simp
  qed
  from new_or_old [of i v] new_or_old [of j w] a assms(2)
  show "v = w \<and> i = j"
    unfolding edges_owned_once_def by blast
qed

lemma add_outedge_inedges:
  assumes "inedges_sound h" and "inedges_distinct h" and "e \<notin> dom (edge_at h)"
  shows "inedges_sound (add_outedge h this sink e) \<and> inedges_distinct (add_outedge h this sink e)"
proof -
  have notin: "e \<notin> set (inedges_f (node_at h v))" for v
    using assms(1,3) unfolding inedges_sound_def by auto
  have "inedges_sound (add_outedge h this sink e)"
    unfolding inedges_sound_def
  proof (intro allI impI)
    fix v x assume "x \<in> set (inedges_f (node_at (add_outedge h this sink e) v))"
    then consider "x = e" "v = sink" | "x \<in> set (inedges_f (node_at h v))"
      by (auto simp: add_outedge_parts split: if_splits)
    then show "\<exists>ed. edge_at (add_outedge h this sink e) x = Some ed \<and> sink_f ed = v"
    proof cases
      case 1
      then show ?thesis by (simp add: add_outedge_parts)
    next
      case 2
      then have "x \<noteq> e" using notin by auto
      with 2 assms(1) show ?thesis
        unfolding inedges_sound_def by (simp add: add_outedge_parts)
    qed
  qed
  moreover have "inedges_distinct (add_outedge h this sink e)"
    using assms(2) notin unfolding inedges_distinct_def
    by (simp add: add_outedge_parts)
  ultimately show ?thesis by simp
qed

lemma add_outedge_wf:
  assumes "cfg_wf h" and "e \<notin> dom (edge_at h)"
  shows "cfg_wf (add_outedge h this sink e)"
  using assms add_outedge_indexed add_outedge_owned_once add_outedge_inedges
  unfolding cfg_wf_def by blast


lemma resize_last:
  assumes "es \<noteq> []"
  shows "resize edges es (length es - 1) = (destroy edges (last es), butlast es)"
proof -
  have "drop (length es - 1) (butlast es @ [last es]) = [last es]"
    by simp
  then have "drop (length es - 1) es = [last es]"
    using assms by simp
  then show ?thesis
    by (simp add: resize_def butlast_conv_take)
qed

lemma remove_outedge_unfold:
  assumes "n < noutedges h this" and "outedges_f (node_at h this) ! n = Some e"
    and "edge_at h e = Some ed"
    and "remove_outedge_loop (edge_at h) (outedges_f (node_at h this)) (n + 1) = Some (edges2, es2)"
    and "resize edges2 es2 (length es2 - 1) = (edges3, es3)"
  shows "remove_outedge h this n = Some
     \<lparr>edge_at = edges3,
      node_at = (\<lambda>v. \<lparr>outedges_f = (if v = this then es3 else outedges_f (node_at h v)),
                        inedges_f = (if v = sink_f ed then removeAll e (inedges_f (node_at h v))
                                     else inedges_f (node_at h v))\<rparr>)\<rparr>"
proof (cases "this = sink_f ed")
  case True
  then show ?thesis
    using assms by (auto simp: remove_outedge_def Let_def fun_eq_iff)
next
  case False
  then show ?thesis
    using assms by (auto simp: remove_outedge_def Let_def fun_eq_iff)
qed

lemma remove_outedge_result:
  assumes idx: "edges_indexed h" and once: "edges_owned_once h" and n: "n < noutedges h this"
  obtains e ed h' where
    "outedges_f (node_at h this) ! n = Some e" and "edge_at h e = Some ed"
    and "remove_outedge h this n = Some h'"
    and "edge_at h' =
      (\<lambda>x. if x = e then None
           else if Some x \<in> set (drop (Suc n) (outedges_f (node_at h this)))
             then map_option (\<lambda>ed. ed\<lparr>index_f := index_f ed - 1\<rparr>) (edge_at h x)
           else edge_at h x)"
    and "\<And>v. outedges_f (node_at h' v) =
      (if v = this
       then take n (outedges_f (node_at h this)) @ drop (Suc n) (outedges_f (node_at h this))
       else outedges_f (node_at h v))"
    and "\<And>v. inedges_f (node_at h' v) =
      (if v = sink_f ed then removeAll e (inedges_f (node_at h v)) else inedges_f (node_at h v))"
proof -
  define es where "es = outedges_f (node_at h this)"
  have len: "n < length es" using n by (simp add: es_def noutedges_def)
  from idx n obtain e ed where e: "es ! n = Some e" and ed: "edge_at h e = Some ed"
    unfolding edges_indexed_def es_def by blast
  define target where "target =
      (\<lambda>x. if x = e then None
           else if Some x \<in> set (drop (Suc n) es)
             then map_option (\<lambda>ed. ed\<lparr>index_f := index_f ed - 1\<rparr>) (edge_at h x)
           else edge_at h x)"
  have loop_resize: "\<exists>edges2 es2. remove_outedge_loop (edge_at h) es (n + 1) = Some (edges2, es2)
      \<and> resize edges2 es2 (length es2 - 1) = (target, take n es @ drop (Suc n) es)"
  proof (cases "n + 1 < length es")
    case True
    have live: "\<forall>j. n + 1 \<le> j \<and> j < length es \<longrightarrow> (\<exists>e. es ! j = Some e \<and> e \<in> dom (edge_at h))"
      using idx unfolding edges_indexed_def es_def noutedges_def by fastforce
    have uniq: "\<forall>j k x. n + 1 - 1 \<le> j \<and> j < k \<and> k < length es \<and> es ! j = Some x
                 \<longrightarrow> es ! k \<noteq> Some x"
    proof (intro allI impI notI)
      fix j k x
      assume a: "n + 1 - 1 \<le> j \<and> j < k \<and> k < length es \<and> es ! j = Some x"
        and b: "es ! k = Some x"
      then have "j < noutedges h this" and "k < noutedges h this"
        by (simp_all add: es_def noutedges_def)
      with once a b have "j = k"
        unfolding edges_owned_once_def es_def by blast
      with a show False by simp
    qed
    have "remove_outedge_loop (edge_at h) es (n + 1) =
        Some (shifted_edges (edge_at h) es (n + 1), take (n + 1 - 1) es @ drop (n + 1) es @ [None])"
      by (rule loop_spec [OF _ True live uniq]) simp
    moreover have "shifted_edges (edge_at h) es (n + 1) = target"
      using e by (auto simp: shifted_edges_def target_def fun_eq_iff)
    moreover have "resize target (take n es @ drop (n + 1) es @ [None])
        (length (take n es @ drop (n + 1) es @ [None]) - 1) = (target, take n es @ drop (Suc n) es)"
      by (subst resize_last) (simp_all add: destroy_def butlast_append)
    ultimately show ?thesis by simp
  next
    case False
    with len have last: "length es = n + 1" by simp
    then have "es \<noteq> []" by auto
    have "remove_outedge_loop (edge_at h) es (n + 1) = Some (edge_at h, es)"
      using last by (simp add: loop_stop)
    moreover have "last es = Some e"
      using last e \<open>es \<noteq> []\<close> by (simp add: last_conv_nth)
    moreover have "butlast es = take n es @ drop (Suc n) es"
      using last by (simp add: butlast_conv_take)
    moreover have "destroy (edge_at h) (Some e) = target"
      using last by (auto simp: destroy_def target_def fun_eq_iff)
    ultimately show ?thesis
      using resize_last [OF \<open>es \<noteq> []\<close>, of "edge_at h"] by simp
  qed
  then obtain edges2 es2 where
    loop: "remove_outedge_loop (edge_at h) es (n + 1) = Some (edges2, es2)"
    and rs: "resize edges2 es2 (length es2 - 1) = (target, take n es @ drop (Suc n) es)"
    by blast
  define h' where "h' =
     \<lparr>edge_at = target,
      node_at = (\<lambda>v. \<lparr>outedges_f = (if v = this then take n es @ drop (Suc n) es
                                       else outedges_f (node_at h v)),
                        inedges_f = (if v = sink_f ed then removeAll e (inedges_f (node_at h v))
                                     else inedges_f (node_at h v))\<rparr>)\<rparr>"
  have res: "remove_outedge h this n = Some h'"
    unfolding h'_def
    by (rule remove_outedge_unfold [OF n e [unfolded es_def] ed loop [unfolded es_def]
          rs [unfolded es_def], folded es_def])
  show ?thesis
  proof (rule that [of e ed h'])
    show "outedges_f (node_at h this) ! n = Some e" using e by (simp add: es_def)
    show "edge_at h e = Some ed" by (rule ed)
    show "remove_outedge h this n = Some h'" by (rule res)
    show "edge_at h' =
      (\<lambda>x. if x = e then None
           else if Some x \<in> set (drop (Suc n) (outedges_f (node_at h this)))
             then map_option (\<lambda>ed. ed\<lparr>index_f := index_f ed - 1\<rparr>) (edge_at h x)
           else edge_at h x)"
      unfolding h'_def target_def es_def by simp
    show "outedges_f (node_at h' v) =
      (if v = this
       then take n (outedges_f (node_at h this)) @ drop (Suc n) (outedges_f (node_at h this))
       else outedges_f (node_at h v))" for v
      unfolding h'_def es_def by simp
    show "inedges_f (node_at h' v) =
      (if v = sink_f ed then removeAll e (inedges_f (node_at h v)) else inedges_f (node_at h v))" for v
      by (simp add: h'_def)
  qed
qed


lemma in_set_drop_nth: "(y \<in> set (drop m xs)) = (\<exists>k. m \<le> k \<and> k < length xs \<and> xs ! k = y)"
proof
  assume "y \<in> set (drop m xs)"
  then obtain j where "j < length xs - m" and "drop m xs ! j = y"
    by (auto simp: in_set_conv_nth)
  then have "m \<le> m + j \<and> m + j < length xs \<and> xs ! (m + j) = y" by simp
  then show "\<exists>k. m \<le> k \<and> k < length xs \<and> xs ! k = y" by blast
next
  assume "\<exists>k. m \<le> k \<and> k < length xs \<and> xs ! k = y"
  then obtain k where k: "m \<le> k" "k < length xs" "xs ! k = y" by blast
  then have "drop m xs ! (k - m) = y" and "k - m < length (drop m xs)" by simp_all
  then show "y \<in> set (drop m xs)" by (metis nth_mem)
qed

lemma nth_take_drop_Suc:
  assumes "i < length xs - 1" and "n < length xs"
  shows "(take n xs @ drop (Suc n) xs) ! i = (if i < n then xs ! i else xs ! Suc i)"
  using assms by (simp add: nth_append min_def)

lemma remove_outedge_wf:
  assumes wf: "cfg_wf h" and n: "n < noutedges h this"
  obtains e ed h' where
    "outedges_f (node_at h this) ! n = Some e" and "edge_at h e = Some ed"
    and "remove_outedge h this n = Some h'" and "cfg_wf h'"
    and "edge_at h' =
      (\<lambda>x. if x = e then None
           else if Some x \<in> set (drop (Suc n) (outedges_f (node_at h this)))
             then map_option (\<lambda>ed. ed\<lparr>index_f := index_f ed - 1\<rparr>) (edge_at h x)
           else edge_at h x)"
    and "\<And>v. outedges_f (node_at h' v) =
      (if v = this
       then take n (outedges_f (node_at h this)) @ drop (Suc n) (outedges_f (node_at h this))
       else outedges_f (node_at h v))"
    and "\<And>v. inedges_f (node_at h' v) =
      (if v = sink_f ed then removeAll e (inedges_f (node_at h v)) else inedges_f (node_at h v))"
proof -
  from wf have idx: "edges_indexed h" and once: "edges_owned_once h"
    and sound: "inedges_sound h" and dist: "inedges_distinct h"
    by (simp_all add: cfg_wf_def)
  let ?es = "outedges_f (node_at h this)"
  show ?thesis
  proof (rule remove_outedge_result [OF idx once n])
  fix e ed h'
  assume e: "?es ! n = Some e" and ed: "edge_at h e = Some ed"
    and res: "remove_outedge h this n = Some h'"
    and edges': "edge_at h' =
      (\<lambda>x. if x = e then None
           else if Some x \<in> set (drop (Suc n) ?es)
             then map_option (\<lambda>ed. ed\<lparr>index_f := index_f ed - 1\<rparr>) (edge_at h x)
           else edge_at h x)"
    and out': "\<And>v. outedges_f (node_at h' v) =
      (if v = this then take n ?es @ drop (Suc n) ?es else outedges_f (node_at h v))"
    and in': "\<And>v. inedges_f (node_at h' v) =
      (if v = sink_f ed then removeAll e (inedges_f (node_at h v)) else inedges_f (node_at h v))"
  have len: "n < length ?es" using n by (simp add: noutedges_def)
  have onceD: "v = w \<and> i = j"
    if "i < length (outedges_f (node_at h v))" and "j < length (outedges_f (node_at h w))"
      and "outedges_f (node_at h v) ! i = Some x" and "outedges_f (node_at h w) ! j = Some x"
    for v w i j x
    using once that unfolding edges_owned_once_def noutedges_def by blast
  have idxD: "\<exists>x ed. outedges_f (node_at h v) ! i = Some x \<and> edge_at h x = Some ed
        \<and> source_f ed = v \<and> index_f ed = of_nat i"
    if "i < length (outedges_f (node_at h v))" for v i
    using idx that unfolding edges_indexed_def noutedges_def by blast
  define from_slot where "from_slot v i = (if v = this \<and> n \<le> i then Suc i else i)" for v i :: nat
  have slot: "from_slot v i < length (outedges_f (node_at h v))
      \<and> outedges_f (node_at h' v) ! i = outedges_f (node_at h v) ! from_slot v i"
    if "i < length (outedges_f (node_at h' v))" for v i
  proof (cases "v = this")
    case True
    with that have i: "i < length ?es - 1" using len by (simp add: out' min_def)
    then show ?thesis
      using True len nth_take_drop_Suc [OF i len]
      by (auto simp: from_slot_def out')
  next
    case False
    with that show ?thesis by (simp add: from_slot_def out')
  qed
  have slot_inj: "i = j" if "from_slot v i = from_slot v j" for v i j
    using that by (auto simp: from_slot_def split: if_splits)
  have slot_ne: "\<not> (v = this \<and> from_slot v i = n)" for v i
    by (auto simp: from_slot_def)
  have kept: "edge_at h' x =
      (if v = this \<and> n < k then Some (edx\<lparr>index_f := index_f edx - 1\<rparr>) else Some edx)"
    if "k < length (outedges_f (node_at h v))" and "outedges_f (node_at h v) ! k = Some x"
      and "\<not> (v = this \<and> k = n)" and "edge_at h x = Some edx" for v k x edx
  proof -
    have "x \<noteq> e"
    proof
      assume "x = e"
      with that(2) have "outedges_f (node_at h v) ! k = Some e" by simp
      from onceD [OF that(1) len this e] that(3) show False by simp
    qed
    moreover have "(Some x \<in> set (drop (Suc n) ?es)) = (v = this \<and> n < k)"
    proof
      assume "Some x \<in> set (drop (Suc n) ?es)"
      then obtain m where m: "Suc n \<le> m" "m < length ?es" "?es ! m = Some x"
        unfolding in_set_drop_nth by blast
      with onceD [OF that(1) m(2) that(2) m(3)]
      show "v = this \<and> n < k" by simp
    next
      assume "v = this \<and> n < k"
      with that(1,2) have "Suc n \<le> k \<and> k < length ?es \<and> ?es ! k = Some x" by simp
      then show "Some x \<in> set (drop (Suc n) ?es)"
        unfolding in_set_drop_nth by blast
    qed
    ultimately show ?thesis using that(4) by (simp add: edges')
  qed
  have idx': "edges_indexed h'"
    unfolding edges_indexed_def noutedges_def
  proof (intro allI impI)
    fix v i assume i: "i < length (outedges_f (node_at h' v))"
    from slot [OF i] idxD [of "from_slot v i" v] obtain x edx where
      x: "from_slot v i < length (outedges_f (node_at h v))"
        "outedges_f (node_at h' v) ! i = Some x"
        "outedges_f (node_at h v) ! from_slot v i = Some x"
        "edge_at h x = Some edx" "source_f edx = v" "index_f edx = of_nat (from_slot v i)"
      by auto
    have "edge_at h' x = (if v = this \<and> n < from_slot v i
        then Some (edx\<lparr>index_f := index_f edx - 1\<rparr>) else Some edx)"
      by (rule kept [OF x(1) x(3) slot_ne x(4)])
    then have "\<exists>ed'. edge_at h' x = Some ed' \<and> source_f ed' = v \<and> index_f ed' = of_nat i"
      using x(5,6) by (auto simp: from_slot_def split: if_splits)
    with x(2) show "\<exists>e ed. outedges_f (node_at h' v) ! i = Some e \<and> edge_at h' e = Some ed
        \<and> source_f ed = v \<and> index_f ed = of_nat i"
      by blast
  qed
  have once': "edges_owned_once h'"
    unfolding edges_owned_once_def noutedges_def
  proof (intro allI impI)
    fix v i w j x
    assume a: "i < length (outedges_f (node_at h' v)) \<and> j < length (outedges_f (node_at h' w))
        \<and> outedges_f (node_at h' v) ! i = Some x \<and> outedges_f (node_at h' w) ! j = Some x"
    then have ai: "i < length (outedges_f (node_at h' v))"
      and aj: "j < length (outedges_f (node_at h' w))"
      and xi: "outedges_f (node_at h' v) ! i = Some x"
      and xj: "outedges_f (node_at h' w) ! j = Some x"
      by blast+
    from slot [OF ai] xi have si: "from_slot v i < length (outedges_f (node_at h v))"
      "outedges_f (node_at h v) ! from_slot v i = Some x" by simp_all
    from slot [OF aj] xj have sj: "from_slot w j < length (outedges_f (node_at h w))"
      "outedges_f (node_at h w) ! from_slot w j = Some x" by simp_all
    from onceD [OF si(1) sj(1) si(2) sj(2)]
    have vw: "v = w" and "from_slot v i = from_slot w j" by blast+
    then have "from_slot v i = from_slot v j" by simp
    then show "v = w \<and> i = j" using slot_inj [of v i j] vw by blast
  qed
  have sound': "inedges_sound h'"
    unfolding inedges_sound_def
  proof (intro allI impI)
    fix v x assume "x \<in> set (inedges_f (node_at h' v))"
    then have x: "x \<in> set (inedges_f (node_at h v))" and "v = sink_f ed \<longrightarrow> x \<noteq> e"
      by (auto simp: in' split: if_splits)
    moreover from x sound obtain edx where edx: "edge_at h x = Some edx" "sink_f edx = v"
      unfolding inedges_sound_def by blast
    ultimately have "x \<noteq> e" using ed by auto
    then have "\<exists>ed'. edge_at h' x = Some ed' \<and> sink_f ed' = sink_f edx"
      using edx(1) by (simp add: edges')
    with edx(2) show "\<exists>ed. edge_at h' x = Some ed \<and> sink_f ed = v" by simp
  qed
  have dist': "inedges_distinct h'"
    using dist unfolding inedges_distinct_def by (simp add: in' distinct_removeAll)
  have wf': "cfg_wf h'"
    using idx' once' sound' dist' by (simp add: cfg_wf_def)
  show ?thesis
    by (rule that [OF e ed res wf' edges' out' in'])
  qed
qed


lemma cfg_step_wf:
  assumes "cfg_wf h" and "cfg_step h c = Some h'"
  shows "cfg_wf h'"
proof (cases c)
  case (Add_outedge this sink e)
  with assms(2) have "e \<notin> dom (edge_at h)" and "h' = add_outedge h this sink e"
    by (simp_all del: domIff split: if_splits)
  with add_outedge_wf [OF assms(1), of e this sink] show ?thesis
    by blast
next
  case (Remove_outedge this n)
  with assms(2) have res: "remove_outedge h this n = Some h'" by simp
  then have "n < noutedges h this"
    by (auto simp: remove_outedge_def split: if_splits)
  from remove_outedge_wf [OF assms(1) this] res show ?thesis
    by (metis option.inject)
qed

lemma cfg_run_wf:
  assumes "cfg_wf h" and "cfg_run h cs = Some h'"
  shows "cfg_wf h'"
  using assms
proof (induction cs arbitrary: h)
  case Nil
  then show ?case by simp
next
  case (Cons c cs)
  then show ?case
    by (auto split: option.splits dest: cfg_step_wf)
qed

lemma remove_outedge_triples:
  assumes wf: "cfg_wf h" and n: "n < noutedges h this"
    and res: "remove_outedge h this n = Some h'"
  shows "outedge_triples h' this =
     take n (outedge_triples h this)
     @ map (map_option (\<lambda>(s, t, i). (s, t, i - 1))) (drop (Suc n) (outedge_triples h this))"
proof -
  let ?es = "outedges_f (node_at h this)"
  let ?trip = "\<lambda>ed. (source_f ed, sink_f ed, index_f ed)"
  let ?f = "\<lambda>g p. case p of None \<Rightarrow> None | Some e \<Rightarrow> map_option ?trip (g e)"
  from wf have once: "edges_owned_once h" by (simp add: cfg_wf_def)
  have len: "n < length ?es" using n by (simp add: noutedges_def)
  show ?thesis
  proof (rule remove_outedge_wf [OF wf n])
    fix e ed h''
    assume e: "?es ! n = Some e" and res': "remove_outedge h this n = Some h''"
      and edges': "edge_at h'' =
        (\<lambda>x. if x = e then None
           else if Some x \<in> set (drop (Suc n) ?es)
             then map_option (\<lambda>ed. ed\<lparr>index_f := index_f ed - 1\<rparr>) (edge_at h x)
           else edge_at h x)"
      and out': "\<And>v. outedges_f (node_at h'' v) =
        (if v = this then take n ?es @ drop (Suc n) ?es else outedges_f (node_at h v))"
    from res res' have h': "h'' = h'" by simp
    have ne: "x \<noteq> e" if "k < length ?es" and "?es ! k = Some x" and "k \<noteq> n" for k x
    proof
      assume "x = e"
      with that(2) have "?es ! k = Some e" by simp
      with once that(1) len e have "k = n"
        unfolding edges_owned_once_def noutedges_def by blast
      with that(3) show False by simp
    qed
    have before: "?f (edge_at h'') p = ?f (edge_at h) p" if "p \<in> set (take n ?es)" for p
    proof (cases p)
      case None
      then show ?thesis by simp
    next
      case (Some x)
      with that obtain k where k: "k < n" "k < length ?es" "?es ! k = Some x"
        by (auto simp: in_set_conv_nth)
      have "Some x \<notin> set (drop (Suc n) ?es)"
      proof
        assume "Some x \<in> set (drop (Suc n) ?es)"
        then obtain m where m: "Suc n \<le> m" "m < length ?es" "?es ! m = Some x"
          unfolding in_set_drop_nth by blast
        with once k have "k = m"
          unfolding edges_owned_once_def noutedges_def by blast
        with k(1) m(1) show False by simp
      qed
      moreover have "x \<noteq> e" using ne [OF k(2,3)] k(1) by simp
      ultimately show ?thesis using Some by (simp add: edges')
    qed
    have after: "?f (edge_at h'') p = map_option (\<lambda>(s, t, i). (s, t, i - 1)) (?f (edge_at h) p)"
      if "p \<in> set (drop (Suc n) ?es)" for p
    proof (cases p)
      case None
      then show ?thesis by simp
    next
      case (Some x)
      with that obtain m where m: "Suc n \<le> m" "m < length ?es" "?es ! m = Some x"
        unfolding in_set_drop_nth by blast
      then have "x \<noteq> e" using ne [OF m(2,3)] by simp
      then show ?thesis
        using Some that by (simp add: edges' option.map_comp comp_def)
    qed
    have "outedge_triples h'' this =
        map (?f (edge_at h'')) (take n ?es) @ map (?f (edge_at h'')) (drop (Suc n) ?es)"
      by (simp add: outedge_triples_def out')
    also have "map (?f (edge_at h'')) (take n ?es) = map (?f (edge_at h)) (take n ?es)"
      using before by (intro map_cong) simp_all
    also have "map (?f (edge_at h'')) (drop (Suc n) ?es) =
        map (\<lambda>p. map_option (\<lambda>(s, t, i). (s, t, i - 1)) (?f (edge_at h) p)) (drop (Suc n) ?es)"
      using after by (intro map_cong) simp_all
    finally show ?thesis
      unfolding h' by (simp add: outedge_triples_def take_map drop_map comp_def)
  qed
qed

text \<open>
  Claim C5. After any sequence of \<open>add_outedge\<close> and \<open>remove_outedge\<close> calls on nodes
  without edges, the index of the edge in slot \<open>i\<close> of a node is \<open>i\<close>, for every slot
  below \<open>noutedges\<close>. On such a store \<open>remove_outedge\<close> of a slot \<open>n\<close> below \<open>noutedges\<close>
  returns; it takes the edge of slot \<open>n\<close> out and keeps the other edges in their order,
  source and sink; the edges before slot \<open>n\<close> keep their index, the index of every edge
  after it is one less, and \<open>noutedges\<close> is one less.
\<close>

theorem edge_indices_contiguous:
  assumes "cfg_run cfg_init ops = Some h"
  shows "(\<forall>v i. i < noutedges h v \<longrightarrow>
            (\<exists>e ed. outedge h v i = Inr (Some e) \<and> edge_at h e = Some ed
                    \<and> index_f ed = of_nat i))
    \<and> (\<forall>v n. n < noutedges h v \<longrightarrow>
            (\<exists>h'. remove_outedge h v n = Some h'
               \<and> Suc (noutedges h' v) = noutedges h v
               \<and> outedges_f (node_at h' v) =
                   take n (outedges_f (node_at h v)) @ drop (Suc n) (outedges_f (node_at h v))
               \<and> outedge_triples h' v =
                   take n (outedge_triples h v)
                   @ map (map_option (\<lambda>(s, t, i). (s, t, i - 1)))
                       (drop (Suc n) (outedge_triples h v))))"
proof -
  have wf: "cfg_wf h"
    by (rule cfg_run_wf [OF cfg_wf_init assms])
  have first: "\<exists>e ed. outedge h v i = Inr (Some e) \<and> edge_at h e = Some ed
                    \<and> index_f ed = of_nat i" if "i < noutedges h v" for v i
    using wf that unfolding cfg_wf_def edges_indexed_def outedge_def by fastforce
  have second: "\<exists>h'. remove_outedge h v n = Some h'
               \<and> Suc (noutedges h' v) = noutedges h v
               \<and> outedges_f (node_at h' v) =
                   take n (outedges_f (node_at h v)) @ drop (Suc n) (outedges_f (node_at h v))
               \<and> outedge_triples h' v =
                   take n (outedge_triples h v)
                   @ map (map_option (\<lambda>(s, t, i). (s, t, i - 1)))
                       (drop (Suc n) (outedge_triples h v))" if n: "n < noutedges h v" for v n
  proof (rule remove_outedge_wf [OF wf n])
    fix h'
    assume res: "remove_outedge h v n = Some h'"
      and out': "\<And>w. outedges_f (node_at h' w) =
        (if w = v then take n (outedges_f (node_at h v)) @ drop (Suc n) (outedges_f (node_at h v))
         else outedges_f (node_at h w))"
    have "Suc (noutedges h' v) = noutedges h v"
      using n by (simp add: noutedges_def out' min_def)
    with res out' [of v] remove_outedge_triples [OF wf n res] show ?thesis by simp
  qed
  from first second show ?thesis by blast
qed


lemma noutedges_init: "noutedges cfg_init v = 0"
  by (simp add: noutedges_def cfg_init_def)

theorem edge_indices_contiguous_witness:
  "\<exists>h. cfg_run cfg_init [Add_outedge 0 1 10, Add_outedge 0 2 11, Add_outedge 0 0 12] = Some h
     \<and> noutedges h 0 = 3
     \<and> (\<exists>e ed. outedge h 0 2 = Inr (Some e) \<and> edge_at h e = Some ed \<and> index_f ed = of_nat 2)
     \<and> (\<exists>h'. remove_outedge h 0 1 = Some h'
           \<and> Suc (noutedges h' 0) = noutedges h 0
           \<and> outedges_f (node_at h' 0) =
               take 1 (outedges_f (node_at h 0)) @ drop (Suc 1) (outedges_f (node_at h 0))
           \<and> outedge_triples h' 0 =
               take 1 (outedge_triples h 0)
               @ map (map_option (\<lambda>(s, t, i). (s, t, i - 1))) (drop (Suc 1) (outedge_triples h 0)))"
proof -
  let ?h = "add_outedge (add_outedge (add_outedge cfg_init 0 1 10) 0 2 11) 0 0 12"
  have run: "cfg_run cfg_init [Add_outedge 0 1 10, Add_outedge 0 2 11, Add_outedge 0 0 12] = Some ?h"
    by (simp add: add_outedge_parts cfg_init_def)
  have n: "noutedges ?h 0 = 3"
    by (simp add: noutedges_add noutedges_init)
  have lt: "2 < noutedges ?h 0" "1 < noutedges ?h 0"
    using n by simp_all
  note first = edge_indices_contiguous [OF run, THEN conjunct1, rule_format, OF lt(1)]
  note second = edge_indices_contiguous [OF run, THEN conjunct2, rule_format, OF lt(2)]
  show ?thesis
    by (intro exI [of _ ?h] conjI run n first second)
qed

lemma uset_of_init: "uset_of cfg_init = cfg_init_uset"
  by (simp add: uset_of_def cfg_init_def cfg_init_uset_def)

lemma uset_of_simps:
  "edge_at (uset_of h) = edge_at h"
  "outedges_f (node_at (uset_of h) v) = outedges_f (node_at h v)"
  "inedges_f (node_at (uset_of h) v) = set (inedges_f (node_at h v))"
  "noutedges (uset_of h) v = noutedges h v"
  by (simp_all add: uset_of_def noutedges_def)

lemma uset_of_add: "uset_of (add_outedge h this sink e) = add_outedge_uset (uset_of h) this sink e"
  by (auto simp: uset_of_def add_outedge_def add_outedge_uset_def Let_def noutedges_def fun_eq_iff)

lemma uset_of_remove:
  "map_option uset_of (remove_outedge h this n) = remove_outedge_uset (uset_of h) this n"
proof -
  have "(\<lambda>v. \<lparr>outedges_f = outedges_f (node_at h v), inedges_f = set (inedges_f (node_at h v))\<rparr>) this
      = \<lparr>outedges_f = outedges_f (node_at h this), inedges_f = set (inedges_f (node_at h this))\<rparr>"
    by simp
  show ?thesis
    by (auto simp: uset_of_def remove_outedge_def remove_outedge_uset_def Let_def noutedges_def
        fun_eq_iff split: option.splits prod.splits)
qed

lemma uset_of_step: "map_option uset_of (cfg_step h c) = cfg_step_uset (uset_of h) c"
  by (cases c) (simp_all add: uset_of_add uset_of_remove uset_of_simps)

lemma uset_of_run: "map_option uset_of (cfg_run h cs) = cfg_run_uset (uset_of h) cs"
proof (induction cs arbitrary: h)
  case Nil
  then show ?case by simp
next
  case (Cons c cs)
  show ?case
  proof (cases "cfg_step h c")
    case None
    with uset_of_step [of h c] show ?thesis by simp
  next
    case (Some h1)
    with uset_of_step [of h c, symmetric] Cons.IH [of h1] show ?thesis by simp
  qed
qed


text \<open>
  Claim C9. The two definitions of the CFG node agree on the out-edge interface. Run
  from nodes without edges, a sequence of \<open>add_outedge\<close> and \<open>remove_outedge\<close> calls fails
  with the one definition exactly when it fails with the other; when it succeeds, every
  node has the same triples of source, sink and index in the same order, the same
  \<open>noutedges\<close> and the same \<open>ninedges\<close> under both, and its unordered set of in-edges holds
  the elements of its list of in-edges.
\<close>

theorem cfg_node_definitions_agree:
  "cfg_run_uset cfg_init_uset ops = map_option uset_of (cfg_run cfg_init ops)
   \<and> ((cfg_run_uset cfg_init_uset ops = None) = (cfg_run cfg_init ops = None))
   \<and> (\<forall>h. cfg_run cfg_init ops = Some h \<longrightarrow>
         (\<exists>u. cfg_run_uset cfg_init_uset ops = Some u
            \<and> (\<forall>v. outedge_triples u v = outedge_triples h v
                   \<and> noutedges u v = noutedges h v
                   \<and> ninedges_uset u v = ninedges h v
                   \<and> inedges_f (node_at u v) = set (inedges_f (node_at h v)))))"
proof -
  have run: "cfg_run_uset cfg_init_uset ops = map_option uset_of (cfg_run cfg_init ops)"
    using uset_of_run [of cfg_init ops] by (simp add: uset_of_init)
  have obs: "outedge_triples (uset_of h) v = outedge_triples h v
      \<and> noutedges (uset_of h) v = noutedges h v
      \<and> ninedges_uset (uset_of h) v = ninedges h v
      \<and> inedges_f (node_at (uset_of h) v) = set (inedges_f (node_at h v))"
    if "cfg_run cfg_init ops = Some h" for h v
  proof -
    have "cfg_wf h" by (rule cfg_run_wf [OF cfg_wf_init that])
    then have "distinct (inedges_f (node_at h v))"
      by (simp add: cfg_wf_def inedges_distinct_def)
    then have "ninedges_uset (uset_of h) v = ninedges h v"
      by (simp add: ninedges_uset_def ninedges_def uset_of_simps distinct_card)
    then show ?thesis
      unfolding outedge_triples_def uset_of_simps by simp
  qed
  show ?thesis
    using run obs by auto
qed

theorem cfg_node_definitions_agree_witness:
  "\<exists>h u. cfg_run cfg_init
            [Add_outedge 0 1 10, Add_outedge 2 1 11, Add_outedge 0 1 12, Remove_outedge 0 0] = Some h
     \<and> cfg_run_uset cfg_init_uset
            [Add_outedge 0 1 10, Add_outedge 2 1 11, Add_outedge 0 1 12, Remove_outedge 0 0] = Some u
     \<and> (\<forall>v. outedge_triples u v = outedge_triples h v
            \<and> noutedges u v = noutedges h v
            \<and> ninedges_uset u v = ninedges h v
            \<and> inedges_f (node_at u v) = set (inedges_f (node_at h v)))"
proof -
  let ?h = "add_outedge (add_outedge (add_outedge cfg_init 0 1 10) 2 1 11) 0 1 12"
  let ?ops = "[Add_outedge 0 1 10, Add_outedge 2 1 11, Add_outedge 0 1 12, Remove_outedge 0 0]"
  have run3: "cfg_run cfg_init [Add_outedge 0 1 10, Add_outedge 2 1 11, Add_outedge 0 1 12] = Some ?h"
    by (simp add: add_outedge_parts cfg_init_def)
  have wf: "cfg_wf ?h"
    by (rule cfg_run_wf [OF cfg_wf_init run3])
  have lt: "0 < noutedges ?h 0"
    by (simp add: noutedges_add noutedges_init)
  obtain h where h: "remove_outedge ?h 0 0 = Some h"
    by (rule remove_outedge_wf [OF wf lt])
  have run: "cfg_run cfg_init ?ops = Some h"
    using h by (simp add: add_outedge_parts cfg_init_def)
  from cfg_node_definitions_agree [of ?ops, THEN conjunct2, THEN conjunct2, rule_format, OF run]
  obtain u where "cfg_run_uset cfg_init_uset ?ops = Some u
     \<and> (\<forall>v. outedge_triples u v = outedge_triples h v
            \<and> noutedges u v = noutedges h v
            \<and> ninedges_uset u v = ninedges h v
            \<and> inedges_f (node_at u v) = set (inedges_f (node_at h v)))" ..
  with run show ?thesis by blast
qed


section \<open>Properties of the store rewrites\<close>

lemma dedup_set: "set (dedup seen xs) = set xs - set seen"
  by (induction xs arbitrary: seen) auto

lemma dedup_distinct: "distinct (dedup seen xs)"
  by (induction xs arbitrary: seen) (auto simp: dedup_set)

lemma count_list_distinct: "distinct xs \<Longrightarrow> x \<in> set xs \<Longrightarrow> count_list xs x = 1"
  by (induction xs) auto

lemma index_of_nth:
  "x \<in> set ys \<Longrightarrow> index_of x ys < length ys \<and> ys ! index_of x ys = x"
  by (induction ys) (auto simp: index_of_def)

lemma rebind_eq:
  "perform_multiple_origin_reduction r (StoreNode i al a v ss) =
     divert (rebind i ss)
       (r\<lparr>nodes := map (\<lambda>n. if node_id n = i then StoreNode i al a v (dedup [] ss) else n)
                      (nodes r)\<rparr>)"
proof -
  have "rebind i ss = (\<lambda>x. case x of
                       NodeOutput j m \<Rightarrow>
                         if j = i \<and> m < length ss
                         then NodeOutput i (index_of (ss ! m) (dedup [] ss)) else x
                     | Argument m \<Rightarrow> x)"
    by (simp add: rebind_def fun_eq_iff)
  then show ?thesis by (simp add: Let_def)
qed

lemma rebind_id: "\<not> from_node i x \<Longrightarrow> rebind i ss x = x"
  by (cases x) (simp_all add: rebind_def)

lemma rebind_kept:
  assumes "m < length ss"
  shows "\<exists>k. k < length (dedup [] ss) \<and> rebind i ss (NodeOutput i m) = NodeOutput i k
           \<and> dedup [] ss ! k = ss ! m"
proof -
  have "ss ! m \<in> set (dedup [] ss)" using assms by (simp add: dedup_set)
  from index_of_nth [OF this] assms show ?thesis by (simp add: rebind_def)
qed

lemma node_id_divert_node [simp]: "node_id (divert_node f n) = node_id n"
  by (cases n) simp_all

lemma find_map_id:
  assumes "\<And>n. node_id (g n) = node_id n"
  shows "find (\<lambda>n. node_id n = i) (map g ns) = map_option g (find (\<lambda>n. node_id n = i) ns)"
  using assms by (induction ns) simp_all

lemma distinct_outputs: "distinct (map (NodeOutput i) [0..<k])"
  by (simp add: distinct_map inj_on_def)

lemma older_store_duplicates:
  assumes "\<not> distinct ss"
  shows "older_store r (StoreNode i al a v ss) = None"
proof (cases ss)
  case Nil
  with assms show ?thesis by simp
next
  case (Cons x xs)
  show ?thesis
  proof (cases x)
    case (Argument m)
    with Cons show ?thesis by simp
  next
    case (NodeOutput i1 k)
    have "NodeOutput i1 k # xs \<noteq> map (NodeOutput i1) [0..<n]" for n
      using assms Cons NodeOutput distinct_outputs [of i1 n] by auto
    with Cons NodeOutput show ?thesis
      by (simp split: option.splits node.splits)
  qed
qed

lemma multiple_origin_node:
  assumes "mutable nf" and "multiple_origin_reducible nf"
    and "find_node r i = Some (StoreNode i al a v ss)" and "\<not> distinct ss"
  shows "normalize_node nf r i =
     divert (rebind i ss)
       (r\<lparr>nodes := map (\<lambda>n. if node_id n = i then StoreNode i al a v (dedup [] ss) else n)
                      (nodes r)\<rparr>)"
  using assms older_store_duplicates [OF assms(4), of r i al a v]
  by (simp add: normalize_node_def rebind_eq [symmetric] del: perform_multiple_origin_reduction.simps)

lemma find_node_replaced:
  assumes "find_node r i = Some n0"
  shows "find_node (divert f (r\<lparr>nodes := map (\<lambda>n. if node_id n = i then n' else n) (nodes r)\<rparr>)) i
     = (if node_id n' = i then Some (divert_node f n') else None)"
proof -
  have id: "node_id n0 = i" and mem: "n0 \<in> set (nodes r)"
    using assms by (auto simp: find_node_def find_Some_iff)
  show ?thesis
  proof (cases "node_id n' = i")
    case True
    then have "\<And>n. node_id (divert_node f (if node_id n = i then n' else n)) = node_id n"
      by simp
    from find_map_id [of "\<lambda>n. divert_node f (if node_id n = i then n' else n)", OF this, of i "nodes r"]
    show ?thesis using assms True id
      by (simp add: find_node_def divert_def comp_def)
  next
    case False
    then have "\<forall>n \<in> set (nodes r). node_id (divert_node f (if node_id n = i then n' else n)) \<noteq> i"
      by auto
    then show ?thesis using False
      by (auto simp: find_node_def divert_def find_None_iff)
  qed
qed


lemma index_of_hd: "ss \<noteq> [] \<Longrightarrow> index_of (ss ! 0) (dedup [] ss) = 0"
  by (cases ss) (simp_all add: index_of_def)

lemma dedup_replicate: "dedup [] (replicate (Suc k) s) = [s]"
proof -
  have "dedup [s] (replicate k s) = []" by (induction k) simp_all
  then show ?thesis by simp
qed

lemma dedup_distinct_id: "distinct (seen @ xs) \<Longrightarrow> dedup seen xs = xs"
  by (induction xs arbitrary: seen) auto

lemma normalize_single:
  "normalize_region nf \<lparr>nodes = [n], results = rs\<rparr> =
     normalize_node nf \<lparr>nodes = [n], results = rs\<rparr> (node_id n)"
  by (simp add: normalize_region_def)

lemma divert_store_id:
  assumes "list_all (\<lambda>x. \<not> from_node i x) (a # v # ss)"
  shows "divert_node (rebind i ss') (StoreNode j al a v ss) = StoreNode j al a v ss"
proof -
  have "map (rebind i ss') ss = ss"
    using assms by (intro map_idI) (simp add: list_all_iff rebind_id)
  then show ?thesis using assms by (simp add: rebind_id)
qed

lemma multiple_origin_general:
  assumes nf: "mutable nf" "multiple_origin_reducible nf"
    and n: "find_node r i = Some (StoreNode i al a v ss)" and dup: "\<not> distinct ss"
    and self: "list_all (\<lambda>x. \<not> from_node i x) (a # v # ss)"
  shows "find_node (normalize_node nf r i) i = Some (StoreNode i al a v (dedup [] ss))"
    and "nodes (normalize_node nf r i) =
           map (\<lambda>n. if node_id n = i then StoreNode i al a v (dedup [] ss)
                     else divert_node (rebind i ss) n) (nodes r)"
    and "results (normalize_node nf r i) = map (rebind i ss) (results r)"
proof -
  let ?new = "StoreNode i al a v (dedup [] ss)"
  note norm = multiple_origin_node [OF nf n dup]
  have "list_all (\<lambda>x. \<not> from_node i x) (a # v # dedup [] ss)"
    using self by (auto simp: list_all_iff dedup_set)
  then have new: "divert_node (rebind i ss) ?new = ?new"
    by (rule divert_store_id)
  show "find_node (normalize_node nf r i) i = Some ?new"
    unfolding norm using find_node_replaced [OF n, of "rebind i ss" ?new] new by simp
  show "nodes (normalize_node nf r i) =
           map (\<lambda>n. if node_id n = i then ?new else divert_node (rebind i ss) n) (nodes r)"
    unfolding norm using new by (simp add: divert_def)
  show "results (normalize_node nf r i) = map (rebind i ss) (results r)"
    unfolding norm by (simp add: divert_def)
qed


lemma multiple_origin_test_region:
  assumes "mutable nf" and "multiple_origin_reducible nf"
  shows "\<exists>ss'. prune (normalize_region nf
             \<lparr>nodes = [StoreNode i al (Argument a) (Argument v) (map Argument js)],
              results = [NodeOutput i 0]\<rparr>)
           = \<lparr>nodes = [StoreNode i al (Argument a) (Argument v) ss'],
              results = [NodeOutput i 0]\<rparr>
         \<and> distinct ss' \<and> set ss' = set (map Argument js)
         \<and> (\<forall>s \<in> set (map Argument js). count_list ss' s = 1)
         \<and> (map Argument js = replicate (Suc k) (Argument m) \<longrightarrow>
              ss' = [Argument m]
              \<and> ninputs (StoreNode i al (Argument a) (Argument v) ss') = 3)"
proof -
  let ?ss = "map Argument js"
  let ?n = "StoreNode i al (Argument a) (Argument v) ?ss"
  let ?r = "\<lparr>nodes = [?n], results = [NodeOutput i 0]\<rparr>"
  let ?ss' = "dedup [] ?ss"
  have older: "older_store ?r ?n = None"
    by (cases js) simp_all
  have norm: "normalize_region nf ?r =
      \<lparr>nodes = [StoreNode i al (Argument a) (Argument v) ?ss'], results = [NodeOutput i 0]\<rparr>"
  proof (cases "distinct ?ss")
    case True
    then have "?ss' = ?ss" by (simp add: dedup_distinct_id)
    with True show ?thesis
      using assms older
      by (simp add: normalize_single normalize_node_def find_node_def)
  next
    case False
    then have ne: "?ss \<noteq> []" by auto
    have fn: "find_node ?r i = Some ?n" by (simp add: find_node_def)
    have self: "list_all (\<lambda>x. \<not> from_node i x) (Argument a # Argument v # ?ss)"
      by (auto simp: list_all_iff)
    have "rebind i ?ss (NodeOutput i 0) = NodeOutput i 0"
      using ne index_of_hd [OF ne] by (simp add: rebind_def)
    with multiple_origin_general(2,3) [OF assms fn False self]
    have "nodes (normalize_node nf ?r i) = [StoreNode i al (Argument a) (Argument v) ?ss']"
      and "results (normalize_node nf ?r i) = [NodeOutput i 0]"
      by simp_all
    then show ?thesis by (simp add: normalize_single)
  qed
  have prune: "prune \<lparr>nodes = [StoreNode i al (Argument a) (Argument v) ?ss'],
                       results = [NodeOutput i 0]\<rparr>
      = \<lparr>nodes = [StoreNode i al (Argument a) (Argument v) ?ss'], results = [NodeOutput i 0]\<rparr>"
    by (simp add: prune_def)
  have c1: "prune (normalize_region nf ?r) =
      \<lparr>nodes = [StoreNode i al (Argument a) (Argument v) ?ss'], results = [NodeOutput i 0]\<rparr>"
    by (simp only: norm prune)
  have c2: "distinct ?ss'" by (rule dedup_distinct)
  have c3: "set ?ss' = set ?ss" by (simp add: dedup_set)
  have c4: "\<forall>s \<in> set ?ss. count_list ?ss' s = 1"
    using c2 c3 by (simp add: count_list_distinct)
  have c5: "?ss = replicate (Suc k) (Argument m) \<longrightarrow>
       ?ss' = [Argument m] \<and> ninputs (StoreNode i al (Argument a) (Argument v) ?ss') = 3"
    by (auto simp: dedup_replicate ninputs_def simp del: replicate_Suc)
  show ?thesis
    by (rule exI [of _ ?ss']) (intro conjI c1 c2 c3 c4 c5)
qed

text \<open>
  Claim C6. With the multiple-origin reduction enabled, normalization deduplicates the
  state inputs of a store. In any region, normalizing a store that reads some state more
  than once and none of its own outputs replaces it by a store of the same address and
  value whose state inputs hold each of those states exactly once; every reader of one of
  its state outputs, node or result, is rebound to the output of the state kept for that
  operand, and nothing else in the region changes. In the region of the test, a store over
  the same state several times, four times for one, is left after normalize and prune with
  that one state and three inputs.
\<close>

theorem multiple_origin_deduplicates:
  assumes "mutable nf" and "multiple_origin_reducible nf"
  shows "(find_node r i = Some (StoreNode i al a v ss) \<and> \<not> distinct ss
            \<and> list_all (\<lambda>x. \<not> from_node i x) (a # v # ss) \<longrightarrow>
          find_node (normalize_node nf r i) i = Some (StoreNode i al a v (dedup [] ss))
          \<and> distinct (dedup [] ss) \<and> set (dedup [] ss) = set ss
          \<and> (\<forall>s \<in> set ss. count_list (dedup [] ss) s = 1)
          \<and> nodes (normalize_node nf r i) =
               map (\<lambda>n. if node_id n = i then StoreNode i al a v (dedup [] ss)
                         else divert_node (rebind i ss) n) (nodes r)
          \<and> results (normalize_node nf r i) = map (rebind i ss) (results r)
          \<and> (\<forall>m. m < length ss \<longrightarrow>
                (\<exists>k. k < length (dedup [] ss) \<and> rebind i ss (NodeOutput i m) = NodeOutput i k
                      \<and> dedup [] ss ! k = ss ! m))
          \<and> (\<forall>x. \<not> from_node i x \<longrightarrow> rebind i ss x = x))
      \<and> (\<exists>ss'. prune (normalize_region nf
               \<lparr>nodes = [StoreNode j al' (Argument a') (Argument v') (map Argument js)],
                results = [NodeOutput j 0]\<rparr>)
             = \<lparr>nodes = [StoreNode j al' (Argument a') (Argument v') ss'],
                results = [NodeOutput j 0]\<rparr>
           \<and> distinct ss' \<and> set ss' = set (map Argument js)
           \<and> (\<forall>s \<in> set (map Argument js). count_list ss' s = 1)
           \<and> (map Argument js = replicate (Suc k) (Argument m) \<longrightarrow>
                ss' = [Argument m]
                \<and> ninputs (StoreNode j al' (Argument a') (Argument v') ss') = 3))"
proof (rule conjI)
  show "find_node r i = Some (StoreNode i al a v ss) \<and> \<not> distinct ss
            \<and> list_all (\<lambda>x. \<not> from_node i x) (a # v # ss) \<longrightarrow>
          find_node (normalize_node nf r i) i = Some (StoreNode i al a v (dedup [] ss))
          \<and> distinct (dedup [] ss) \<and> set (dedup [] ss) = set ss
          \<and> (\<forall>s \<in> set ss. count_list (dedup [] ss) s = 1)
          \<and> nodes (normalize_node nf r i) =
               map (\<lambda>n. if node_id n = i then StoreNode i al a v (dedup [] ss)
                         else divert_node (rebind i ss) n) (nodes r)
          \<and> results (normalize_node nf r i) = map (rebind i ss) (results r)
          \<and> (\<forall>m. m < length ss \<longrightarrow>
                (\<exists>k. k < length (dedup [] ss) \<and> rebind i ss (NodeOutput i m) = NodeOutput i k
                      \<and> dedup [] ss ! k = ss ! m))
          \<and> (\<forall>x. \<not> from_node i x \<longrightarrow> rebind i ss x = x)"
  proof (rule impI)
  assume a: "find_node r i = Some (StoreNode i al a v ss) \<and> \<not> distinct ss
            \<and> list_all (\<lambda>x. \<not> from_node i x) (a # v # ss)"
  then have n: "find_node r i = Some (StoreNode i al a v ss)" and dup: "\<not> distinct ss"
    and self: "list_all (\<lambda>x. \<not> from_node i x) (a # v # ss)"
    by blast+
  note gen = multiple_origin_general [OF assms n dup self]
  have d: "distinct (dedup [] ss)" by (rule dedup_distinct)
  have st: "set (dedup [] ss) = set ss" by (simp add: dedup_set)
  have cnt: "\<forall>s \<in> set ss. count_list (dedup [] ss) s = 1"
    using d st by (simp add: count_list_distinct)
  have kept: "\<forall>m. m < length ss \<longrightarrow>
                (\<exists>k. k < length (dedup [] ss) \<and> rebind i ss (NodeOutput i m) = NodeOutput i k
                      \<and> dedup [] ss ! k = ss ! m)"
    using rebind_kept by blast
  have other: "\<forall>x. \<not> from_node i x \<longrightarrow> rebind i ss x = x"
    using rebind_id by blast
  show "find_node (normalize_node nf r i) i = Some (StoreNode i al a v (dedup [] ss))
          \<and> distinct (dedup [] ss) \<and> set (dedup [] ss) = set ss
          \<and> (\<forall>s \<in> set ss. count_list (dedup [] ss) s = 1)
          \<and> nodes (normalize_node nf r i) =
               map (\<lambda>n. if node_id n = i then StoreNode i al a v (dedup [] ss)
                         else divert_node (rebind i ss) n) (nodes r)
          \<and> results (normalize_node nf r i) = map (rebind i ss) (results r)
          \<and> (\<forall>m. m < length ss \<longrightarrow>
                (\<exists>k. k < length (dedup [] ss) \<and> rebind i ss (NodeOutput i m) = NodeOutput i k
                      \<and> dedup [] ss ! k = ss ! m))
          \<and> (\<forall>x. \<not> from_node i x \<longrightarrow> rebind i ss x = x)"
    by (intro conjI gen d st cnt kept other)
  qed
next
  show "\<exists>ss'. prune (normalize_region nf
               \<lparr>nodes = [StoreNode j al' (Argument a') (Argument v') (map Argument js)],
                results = [NodeOutput j 0]\<rparr>)
             = \<lparr>nodes = [StoreNode j al' (Argument a') (Argument v') ss'],
                results = [NodeOutput j 0]\<rparr>
           \<and> distinct ss' \<and> set ss' = set (map Argument js)
           \<and> (\<forall>s \<in> set (map Argument js). count_list ss' s = 1)
           \<and> (map Argument js = replicate (Suc k) (Argument m) \<longrightarrow>
                ss' = [Argument m]
                \<and> ninputs (StoreNode j al' (Argument a') (Argument v') ss') = 3)"
    by (rule multiple_origin_test_region [OF assms])
qed

theorem multiple_origin_deduplicates_witness:
  "find_node (normalize_node
       \<lparr>mutable = True, store_store_reducible = True, multiple_origin_reducible = True\<rparr>
       \<lparr>nodes = [SimpleNode 1 ''state'' False [] 1,
                  StoreNode 2 4 (Argument 0) (Argument 1) [NodeOutput 1 0, Argument 2, NodeOutput 1 0],
                  SimpleNode 3 ''reader'' False [NodeOutput 2 2] 1],
        results = [NodeOutput 2 2, NodeOutput 2 1]\<rparr> 2) 2
     = Some (StoreNode 2 4 (Argument 0) (Argument 1) [NodeOutput 1 0, Argument 2])
   \<and> nodes (normalize_node
       \<lparr>mutable = True, store_store_reducible = True, multiple_origin_reducible = True\<rparr>
       \<lparr>nodes = [SimpleNode 1 ''state'' False [] 1,
                  StoreNode 2 4 (Argument 0) (Argument 1) [NodeOutput 1 0, Argument 2, NodeOutput 1 0],
                  SimpleNode 3 ''reader'' False [NodeOutput 2 2] 1],
        results = [NodeOutput 2 2, NodeOutput 2 1]\<rparr> 2)
     = [SimpleNode 1 ''state'' False [] 1,
        StoreNode 2 4 (Argument 0) (Argument 1) [NodeOutput 1 0, Argument 2],
        SimpleNode 3 ''reader'' False [NodeOutput 2 0] 1]
   \<and> results (normalize_node
       \<lparr>mutable = True, store_store_reducible = True, multiple_origin_reducible = True\<rparr>
       \<lparr>nodes = [SimpleNode 1 ''state'' False [] 1,
                  StoreNode 2 4 (Argument 0) (Argument 1) [NodeOutput 1 0, Argument 2, NodeOutput 1 0],
                  SimpleNode 3 ''reader'' False [NodeOutput 2 2] 1],
        results = [NodeOutput 2 2, NodeOutput 2 1]\<rparr> 2)
     = [NodeOutput 2 0, NodeOutput 2 1]
   \<and> prune (normalize_region
       \<lparr>mutable = True, store_store_reducible = True, multiple_origin_reducible = True\<rparr>
       \<lparr>nodes = [StoreNode 1 4 (Argument 0) (Argument 1)
                   [Argument 2, Argument 2, Argument 2, Argument 2]],
        results = [NodeOutput 1 0]\<rparr>)
     = \<lparr>nodes = [StoreNode 1 4 (Argument 0) (Argument 1) [Argument 2]],
        results = [NodeOutput 1 0]\<rparr>
   \<and> ninputs (StoreNode 1 4 (Argument 0) (Argument 1) [Argument 2]) = 3"
proof -
  let ?nf = "\<lparr>mutable = True, store_store_reducible = True, multiple_origin_reducible = True\<rparr>"
  let ?ss = "[NodeOutput 1 0, Argument 2, NodeOutput 1 0]"
  let ?r = "\<lparr>nodes = [SimpleNode 1 ''state'' False [] 1,
                  StoreNode 2 4 (Argument 0) (Argument 1) ?ss,
                  SimpleNode 3 ''reader'' False [NodeOutput 2 2] 1],
        results = [NodeOutput 2 2, NodeOutput 2 1]\<rparr>"
  have nf: "mutable ?nf" "multiple_origin_reducible ?nf" by simp_all
  have hyp: "find_node ?r 2 = Some (StoreNode 2 4 (Argument 0) (Argument 1) ?ss) \<and> \<not> distinct ?ss
            \<and> list_all (\<lambda>x. \<not> from_node 2 x) (Argument 0 # Argument 1 # ?ss)"
    by (simp add: find_node_def)
  have rep: "map Argument [2, 2, 2, 2] = replicate (Suc 3) (Argument 2)"
    by (simp add: numeral_3_eq_3)
  note inst = multiple_origin_deduplicates [OF nf, where r = ?r and i = 2 and al = 4
      and a = "Argument 0" and v = "Argument 1" and ss = ?ss and j = 1 and al' = 4 and a' = 0
      and v' = 1 and js = "[2, 2, 2, 2]" and k = 3 and m = 2]
  from inst [THEN conjunct1, rule_format, OF hyp]
  have "find_node (normalize_node ?nf ?r 2) 2
          = Some (StoreNode 2 4 (Argument 0) (Argument 1) (dedup [] ?ss))"
    and "nodes (normalize_node ?nf ?r 2) =
          map (\<lambda>n. if node_id n = 2 then StoreNode 2 4 (Argument 0) (Argument 1) (dedup [] ?ss)
                    else divert_node (rebind 2 ?ss) n) (nodes ?r)"
    and "results (normalize_node ?nf ?r 2) = map (rebind 2 ?ss) (results ?r)"
    by blast+
  then have a: "find_node (normalize_node ?nf ?r 2) 2
          = Some (StoreNode 2 4 (Argument 0) (Argument 1) [NodeOutput 1 0, Argument 2])"
    and b: "nodes (normalize_node ?nf ?r 2)
     = [SimpleNode 1 ''state'' False [] 1,
        StoreNode 2 4 (Argument 0) (Argument 1) [NodeOutput 1 0, Argument 2],
        SimpleNode 3 ''reader'' False [NodeOutput 2 0] 1]"
    and c: "results (normalize_node ?nf ?r 2) = [NodeOutput 2 0, NodeOutput 2 1]"
    by (simp_all add: rebind_def index_of_def)
  from inst [THEN conjunct2] rep
  obtain ss' where "prune (normalize_region ?nf
       \<lparr>nodes = [StoreNode 1 4 (Argument 0) (Argument 1) (map Argument [2, 2, 2, 2])],
        results = [NodeOutput 1 0]\<rparr>)
     = \<lparr>nodes = [StoreNode 1 4 (Argument 0) (Argument 1) ss'], results = [NodeOutput 1 0]\<rparr>"
    and "ss' = [Argument 2]"
    and "ninputs (StoreNode 1 4 (Argument 0) (Argument 1) ss') = 3"
    by auto
  then have d: "prune (normalize_region ?nf
       \<lparr>nodes = [StoreNode 1 4 (Argument 0) (Argument 1)
                   [Argument 2, Argument 2, Argument 2, Argument 2]],
        results = [NodeOutput 1 0]\<rparr>)
     = \<lparr>nodes = [StoreNode 1 4 (Argument 0) (Argument 1) [Argument 2]],
        results = [NodeOutput 1 0]\<rparr>"
    and e: "ninputs (StoreNode 1 4 (Argument 0) (Argument 1) [Argument 2]) = 3"
    by simp_all
  show ?thesis by (intro conjI a b c d e)
qed













text \<open>
  The first end-to-end scenario of section 8 of the specification: of four stores on one
  state thread, the last two to the same address, the third is dropped and three remain.
\<close>

lemma store_chain_scenario:
  "prune (normalize_region
       \<lparr>mutable = True, store_store_reducible = True, multiple_origin_reducible = mo\<rparr>
       \<lparr>nodes = [StoreNode 1 4 (Argument 0) (Argument 10) [Argument 3],
                  StoreNode 2 4 (Argument 1) (Argument 11) [NodeOutput 1 0],
                  StoreNode 3 4 (Argument 2) (Argument 12) [NodeOutput 2 0],
                  StoreNode 4 4 (Argument 2) (Argument 13) [NodeOutput 3 0]],
        results = [NodeOutput 4 0]\<rparr>)
     = \<lparr>nodes = [StoreNode 1 4 (Argument 0) (Argument 10) [Argument 3],
                  StoreNode 2 4 (Argument 1) (Argument 11) [NodeOutput 1 0],
                  StoreNode 4 4 (Argument 2) (Argument 13) [NodeOutput 2 0]],
        results = [NodeOutput 4 0]\<rparr>"
  by (simp add: normalize_region_def normalize_node_def find_node_def uses_outside_def
      prune_def)

text \<open>With the store/store toggle off both stores of the pair stay.\<close>

lemma store_store_disabled:
  assumes "\<not> store_store_reducible nf" and "i1 \<noteq> i2"
  shows "prune (normalize_region nf
           \<lparr>nodes = [StoreNode i1 al1 (Argument a) (Argument v1) [Argument s],
                     StoreNode i2 al2 (Argument a) (Argument v2) [NodeOutput i1 0]],
            results = [NodeOutput i2 0]\<rparr>)
         = \<lparr>nodes = [StoreNode i1 al1 (Argument a) (Argument v1) [Argument s],
                     StoreNode i2 al2 (Argument a) (Argument v2) [NodeOutput i1 0]],
            results = [NodeOutput i2 0]\<rparr>"
  using assms
  by (simp add: normalize_region_def normalize_node_def find_node_def prune_def)

text \<open>\<open>prune\<close> removes a node that is not side-effecting and that no result reaches.\<close>

lemma prune_removes_dead:
  "prune \<lparr>nodes = [SimpleNode 1 ''add'' False [Argument 0, Argument 1] 1,
                   SimpleNode 2 ''mul'' False [NodeOutput 1 0, Argument 1] 1,
                   SimpleNode 3 ''sub'' False [Argument 0, Argument 1] 1],
          results = [NodeOutput 2 0]\<rparr>
   = \<lparr>nodes = [SimpleNode 1 ''add'' False [Argument 0, Argument 1] 1,
                SimpleNode 2 ''mul'' False [NodeOutput 1 0, Argument 1] 1],
      results = [NodeOutput 2 0]\<rparr>"
  by (simp add: prune_def)

end
